theory Spec2Isabelle
  imports Complex_Main "HOL-Library.Word" "HOL-Library.Signed_Division" "HOL-Library.Log_Nat"
begin

section \<open>Go values\<close>

text \<open>
  The program is Go. \<open>int64\<close> is a 64-bit two's complement word; Go's \<open>int\<close> is taken
  to be 64 bits wide as well (as on amd64 and arm64), so \<open>int(maxBuilds)\<close> is the identity.
  Arithmetic on words wraps around, comparisons are the signed ones (\<open><s\<close>, \<open>\<le>s\<close>),
  and \<open>sint\<close> reads the mathematical value.
\<close>

type_synonym int64 = "64 word"
type_synonym goint = "64 word"
type_synonym rune = nat

datatype panic = IndexOutOfRange | SliceBoundsOutOfRange

text \<open>
  \<open>len(xs)\<close>, as a Go \<open>int\<close>. A slice has fewer than \<open>2 ^ 63\<close> elements; the theorems
  that read a length assume it of the list.
\<close>

definition go_len :: "'a list \<Rightarrow> goint" where
  "go_len xs = word_of_nat (length xs)"

text \<open>\<open>xs[i]\<close>: Go checks the bounds and panics outside \<open>0 \<le> i < len(xs)\<close>.\<close>

definition go_index :: "'a list \<Rightarrow> goint \<Rightarrow> panic + 'a" where
  "go_index xs i =
     (if 0 \<le> sint i \<and> nat (sint i) < length xs then Inr (xs ! nat (sint i))
      else Inl IndexOutOfRange)"

text \<open>\<open>xs[low:]\<close>: Go panics unless \<open>0 \<le> low \<le> len(xs)\<close>.\<close>

definition go_slice_from :: "'a list \<Rightarrow> goint \<Rightarrow> panic + 'a list" where
  "go_slice_from xs low =
     (if 0 \<le> sint low \<and> nat (sint low) \<le> length xs then Inr (drop (nat (sint low)) xs)
      else Inl SliceBoundsOutOfRange)"

text \<open>\<open>a / b\<close> on \<open>int64\<close> truncates towards zero (\<open>sdiv\<close> on \<open>int\<close>), then wraps.\<close>

definition int64_div :: "int64 \<Rightarrow> int64 \<Rightarrow> int64" where
  "int64_div a b = word_of_int (sint a sdiv sint b)"

subsection \<open>float64\<close>

text \<open>
  A \<open>float64\<close> is an IEEE 754 binary64 value: a finite value (held as the exact rational it
  denotes), an infinity or NaN. Every arithmetic result is the exact result rounded to 53
  significant bits, ties to even (\<open>round53\<close>). The exponent range is not modelled: the
  floating-point operands of this program are conversions of \<open>int64\<close> values, their quotients
  and the product of a quotient with 6, which stay far inside the range of normal numbers.
  The sign of zero is not modelled either: the only zero divisor the program can produce is
  \<open>float64(0)\<close>, which is \<open>+0\<close>.
\<close>

datatype float64 = Finite rat | PosInf | NegInf | NaN

text \<open>Rounding a rational to the nearest integer, ties to even.\<close>

definition rhe :: "rat \<Rightarrow> int" where
  "rhe y = (let f = \<lfloor>y\<rfloor>; d = y - of_int f in
            if d < 1 / 2 then f else if 1 / 2 < d then f + 1
            else if even f then f else f + 1)"

text \<open>The exponent \<open>e\<close> with \<open>2 ^ 52 \<le> x / 2 ^ e < 2 ^ 53\<close>, for \<open>x > 0\<close>.\<close>

definition binade :: "rat \<Rightarrow> int" where
  "binade x = (case quotient_of x of (a, b) \<Rightarrow>
     let e = bitlen a - bitlen b - 53 in
     if 2 powi (e + 53) \<le> x then e + 1 else e)"

definition round53 :: "rat \<Rightarrow> rat" where
  "round53 x = (if x = 0 then 0 else
     let e = binade \<bar>x\<bar> in sgn x * of_int (rhe (\<bar>x\<bar> / 2 powi e)) * 2 powi e)"

text \<open>\<open>float64(v)\<close> for an integer \<open>v\<close>.\<close>

definition float64_of_int64 :: "int64 \<Rightarrow> float64" where
  "float64_of_int64 v = Finite (round53 (of_int (sint v)))"

text \<open>\<open>x / y\<close> on \<open>float64\<close>; division by zero gives an infinity or NaN, never a panic.\<close>

fun float64_div :: "float64 \<Rightarrow> float64 \<Rightarrow> float64" where
  "float64_div (Finite a) (Finite b) =
     (if b = 0 then (if 0 < a then PosInf else if a < 0 then NegInf else NaN)
      else Finite (round53 (a / b)))"
| "float64_div (Finite a) PosInf = Finite 0"
| "float64_div (Finite a) NegInf = Finite 0"
| "float64_div PosInf (Finite b) = (if 0 \<le> b then PosInf else NegInf)"
| "float64_div NegInf (Finite b) = (if 0 \<le> b then NegInf else PosInf)"
| "float64_div _ _ = NaN"

fun float64_mul :: "float64 \<Rightarrow> float64 \<Rightarrow> float64" where
  "float64_mul (Finite a) (Finite b) = Finite (round53 (a * b))"
| "float64_mul PosInf (Finite b) = (if 0 < b then PosInf else if b < 0 then NegInf else NaN)"
| "float64_mul NegInf (Finite b) = (if 0 < b then NegInf else if b < 0 then PosInf else NaN)"
| "float64_mul (Finite a) PosInf = (if 0 < a then PosInf else if a < 0 then NegInf else NaN)"
| "float64_mul (Finite a) NegInf = (if 0 < a then NegInf else if a < 0 then PosInf else NaN)"
| "float64_mul PosInf PosInf = PosInf"
| "float64_mul NegInf NegInf = PosInf"
| "float64_mul PosInf NegInf = NegInf"
| "float64_mul NegInf PosInf = NegInf"
| "float64_mul _ _ = NaN"

text \<open>
  \<open>int64(x)\<close> and \<open>int(x)\<close> for a \<open>float64\<close> \<open>x\<close>: the fraction is discarded (truncation
  towards zero). When the truncated value does not fit, or \<open>x\<close> is not finite, Go leaves
  the result to the implementation; it is the parameter \<open>cv\<close> here (amd64 gives
  \<open>-2 ^ 63\<close>).
\<close>

type_synonym conv = "float64 \<Rightarrow> int64"

definition trunc_rat :: "rat \<Rightarrow> int" where
  "trunc_rat a = (if 0 \<le> a then \<lfloor>a\<rfloor> else - \<lfloor>- a\<rfloor>)"

fun int64_of_float64 :: "conv \<Rightarrow> float64 \<Rightarrow> int64" where
  "int64_of_float64 cv (Finite a) =
     (if - (2 ^ 63) \<le> trunc_rat a \<and> trunc_rat a < 2 ^ 63 then word_of_int (trunc_rat a)
      else cv (Finite a))"
| "int64_of_float64 cv x = cv x"

text \<open>The conversion of amd64, which gives \<open>-2 ^ 63\<close> whenever the value does not fit.\<close>

definition conv_amd64 :: conv where
  "conv_amd64 x = - 9223372036854775808"

subsection \<open>Decimal integers\<close>

text \<open>
  \<open>strconv.ParseInt(s, 10, 64)\<close>, which \<open>json.Number.Int64\<close> calls: an optional sign, then
  at least one decimal digit and nothing else; \<open>None\<close> for a syntax or range error.
\<close>

definition digit_val :: "char \<Rightarrow> int option" where
  "digit_val c = (if 48 \<le> (of_char c :: int) \<and> (of_char c :: int) \<le> 57
                  then Some (of_char c - 48) else None)"

fun parse_digits :: "string \<Rightarrow> int \<Rightarrow> int option" where
  "parse_digits [] n = Some n"
| "parse_digits (c # cs) n =
     (case digit_val c of None \<Rightarrow> None | Some d \<Rightarrow> parse_digits cs (10 * n + d))"

definition ParseInt :: "string \<Rightarrow> int64 option" where
  "ParseInt s =
     (case s of [] \<Rightarrow> None
      | c # cs \<Rightarrow>
          let neg = (c = CHR ''-'');
              ds = (if c = CHR ''+'' \<or> c = CHR ''-'' then cs else s)
          in if ds = [] then None
             else (case parse_digits ds 0 of None \<Rightarrow> None
                   | Some un \<Rightarrow>
                       if \<not> neg \<and> 2 ^ 63 \<le> un then None
                       else if neg \<and> 2 ^ 63 < un then None
                       else Some (word_of_int (if neg then - un else un))))"

text \<open>
  The decimal digits of a number, as \<open>%d\<close> prints them and as a JSON literal has them
  (\<open>dec_digits\<close> is for numbers from 0 on).
\<close>

definition digit_char :: "int \<Rightarrow> char" where
  "digit_char d = char_of (48 + d)"

function dec_digits :: "int \<Rightarrow> string" where
  "dec_digits n = (if n < 10 then [digit_char n]
                   else dec_digits (n div 10) @ [digit_char (n mod 10)])"
  by pat_completeness auto
termination
  by (relation "measure nat") auto

declare dec_digits.simps [simp del]

definition decimal :: "int \<Rightarrow> string" where
  "decimal k = (if k < 0 then CHR ''-'' # dec_digits (- k) else dec_digits k)"

section \<open>JSON accessors\<close>

text \<open>
  A decoded JSON value, as \<open>encoding/json\<close> hands it over in an \<open>interface{}\<close>: \<open>nil\<close>,
  \<open>bool\<close>, \<open>float64\<close>, \<open>json.Number\<close> (a string holding the literal), \<open>string\<close>,
  \<open>[]interface{}\<close> and \<open>map[string]interface{}\<close>. A map is an association list read with
  \<open>map_of\<close>; a \<open>nil\<close> map reads like the empty one.
\<close>

datatype json =
    JNull
  | JBool bool
  | JFloat float64
  | JNumber string
  | JString string
  | JArray "json list"
  | JObject "(string \<times> json) list"

type_synonym JsonObject = "(string \<times> json) list"

text \<open>Each accessor returns Go's pair of the value and \<open>ok\<close>, with the zero value when not ok.\<close>

definition AsJsonObject :: "json \<Rightarrow> JsonObject \<times> bool" where
  "AsJsonObject i = (case i of JObject obj \<Rightarrow> (obj, True) | _ \<Rightarrow> ([], False))"

definition GetString :: "JsonObject \<Rightarrow> string \<Rightarrow> string \<times> bool" where
  "GetString obj key =
     (case map_of obj key of None \<Rightarrow> ('''', False)
      | Some val \<Rightarrow> (case val of JString strVal \<Rightarrow> (strVal, True) | _ \<Rightarrow> ('''', False)))"

definition GetInt64 :: "conv \<Rightarrow> JsonObject \<Rightarrow> string \<Rightarrow> int64 \<times> bool" where
  "GetInt64 cv obj key =
     (case map_of obj key of None \<Rightarrow> (0, False)
      | Some val \<Rightarrow>
          (case val of
             JNumber v \<Rightarrow> (case ParseInt v of None \<Rightarrow> (0, False) | Some i64 \<Rightarrow> (i64, True))
           | JFloat v \<Rightarrow> (int64_of_float64 cv v, True)
           | _ \<Rightarrow> (0, False)))"

definition GetBool :: "JsonObject \<Rightarrow> string \<Rightarrow> bool \<times> bool" where
  "GetBool obj key =
     (case map_of obj key of None \<Rightarrow> (False, False)
      | Some val \<Rightarrow> (case val of JBool bVal \<Rightarrow> (bVal, True) | _ \<Rightarrow> (False, False)))"

definition GetObject :: "JsonObject \<Rightarrow> string \<Rightarrow> JsonObject \<times> bool" where
  "GetObject obj key =
     (case map_of obj key of None \<Rightarrow> ([], False) | Some val \<Rightarrow> AsJsonObject val)"

definition GetArray :: "JsonObject \<Rightarrow> string \<Rightarrow> json list \<times> bool" where
  "GetArray obj key =
     (case map_of obj key of None \<Rightarrow> ([], False)
      | Some val \<Rightarrow> (case val of JArray aVal \<Rightarrow> (aVal, True) | _ \<Rightarrow> ([], False)))"

section \<open>Domain model\<close>

text \<open>
  The repository holds two snapshots of the program. They share the accessors,
  \<open>ProcessBuildObject\<close>, \<open>FetchDetails\<close> and the scan and the glyphs of \<open>RenderHistory\<close>.
  In \<^verbatim>\<open>jitdash.go\<close>, \<open>FetchJobs\<close> checks the folder tag and \<open>ProcessJobObject\<close> truncates and
  fetches the details; in the other snapshot \<open>main\<close> truncates and a pool of workers fetches
  the details. Where the two differ, the functions of \<^verbatim>\<open>jitdash.go\<close> carry the suffix
  \<open>_jitdash\<close>.
\<close>

text \<open>
  A compiled exclusion pattern is represented by its \<open>MatchString\<close> predicate. A
  \<open>time.Time\<close> is either the zero value or \<open>time.Unix(sec, 0).UTC()\<close>; the zero value
  is the instant \<open>-62135596800\<close> seconds from the epoch, so \<open>time_Unix\<close> gives \<open>ZeroTime\<close>
  there and \<open>Unix sec\<close> everywhere else.
\<close>

record Instance =
  Instance_Name :: string
  Instance_Folders :: "string list"
  Instance_Exclude :: "(string \<Rightarrow> bool) list"

datatype time = ZeroTime | Unix int64

definition time_Unix :: "int64 \<Rightarrow> time" where
  "time_Unix sec = (if sec = - 62135596800 then ZeroTime else Unix sec)"

record Build =
  Build_Id :: int64
  Build_Url :: string
  Build_Timestamp :: time
  Build_Failures :: int64
  Build_Complete :: bool

record Job =
  Job_Name :: string
  Job_Url :: string
  Job_Builds :: "Build list"

text \<open>
  The upstream server, as \<open>http.Get\<close> followed by \<open>json.NewDecoder(r.Body).Decode\<close>
  into a \<open>JsonObject\<close> sees it: the request fails, the body does not decode into an object,
  or it decodes.
\<close>

datatype response = RequestFailed | DecodeFailed | Body JsonObject

type_synonym http = "string \<Rightarrow> response"

datatype error = HttpError | DecodeError | missingResultError | missingTimestampError

section \<open>Build stubs and build details\<close>

text \<open>
  The composite literal \<^verbatim>\<open>&Build{Id: id, Url: url}\<close>: the fields it does not name take
  their zero values.
\<close>

definition Build_lit :: "int64 \<Rightarrow> string \<Rightarrow> Build" where
  "Build_lit id' url =
     \<lparr>Build_Id = id', Build_Url = url, Build_Timestamp = ZeroTime,
      Build_Failures = 0, Build_Complete = False\<rparr>"

text \<open>\<open>ProcessBuildObject\<close> (its receiver is unused): a stub with the id and the URL only.\<close>

definition ProcessBuildObject :: "conv \<Rightarrow> json \<Rightarrow> Build option" where
  "ProcessBuildObject cv buildIf =
     (case AsJsonObject buildIf of (build, ok) \<Rightarrow>
      if \<not> ok then None else
     (case GetString build ''_class'' of (class, ok) \<Rightarrow>
      if \<not> ok \<or> class \<noteq> ''hudson.model.FreeStyleBuild'' then None else
     (case GetInt64 cv build ''number'' of (id', ok) \<Rightarrow>
      if \<not> ok then None else
     (case GetString build ''url'' of (url, ok) \<Rightarrow>
      if \<not> ok then None else
      Some (Build_lit id' url)))))"

text \<open>
  The loop of \<open>FetchDetails\<close> over \<open>actions\<close>; \<open>failures\<close> is the variable it overwrites.
\<close>

fun actions_loop :: "conv \<Rightarrow> json list \<Rightarrow> int64 \<Rightarrow> int64" where
  "actions_loop cv [] failures = failures"
| "actions_loop cv (a # actions) failures =
     (case AsJsonObject a of (action, ok) \<Rightarrow>
      if \<not> ok then actions_loop cv actions failures else
     (case GetString action ''_class'' of (class, ok) \<Rightarrow>
      if \<not> ok \<or> class \<noteq> ''hudson.tasks.junit.TestResultAction''
      then actions_loop cv actions failures
      else actions_loop cv actions (fst (GetInt64 cv action ''failCount''))))"

text \<open>
  \<open>FetchDetails\<close> mutates the build it is called on and returns an error or \<open>nil\<close>; the
  model returns the error (if any) and the build as the call leaves it.
\<close>

definition FetchDetails :: "conv \<Rightarrow> http \<Rightarrow> Build \<Rightarrow> error option \<times> Build" where
  "FetchDetails cv get b =
     (case get (Build_Url b @ ''api/json'') of
        RequestFailed \<Rightarrow> (Some HttpError, b)
      | DecodeFailed \<Rightarrow> (Some DecodeError, b)
      | Body details \<Rightarrow>
         (case GetString details ''result'' of (result, ok) \<Rightarrow>
          if \<not> ok then (Some missingResultError, b) else
         (case GetInt64 cv details ''timestamp'' of (unixMilliseconds, ok) \<Rightarrow>
          if \<not> ok then (Some missingTimestampError, b) else
          let b1 = b\<lparr>Build_Timestamp := time_Unix (int64_div unixMilliseconds 1000)\<rparr>;
              building = (case GetBool details ''building'' of (building, ok) \<Rightarrow>
                            if \<not> ok then result = [] else building);
              b2 = b1\<lparr>Build_Complete := \<not> building\<rparr>;
              failures0 = (case GetArray details ''actions'' of (actions, ok) \<Rightarrow>
                            if ok then actions_loop cv actions 0 else 0);
              failures = (if failures0 = 0 \<and> result = ''FAILURE'' then - 1 else failures0)
          in (None, b2\<lparr>Build_Failures := failures\<rparr>))))"

section \<open>Jobs\<close>

text \<open>
  \<open>sort.Sort(BuildSorter(builds))\<close>. \<open>BuildSorter.Less\<close> compares the ids (signed).
  \<open>sort.Sort\<close> is Go's library sort: it permutes the slice so that no later element is
  \<open>Less\<close> than an earlier one, and says nothing about the order of equal elements.
  It is modelled by an insertion sort driven by \<open>Less\<close>, which keeps builds with equal
  ids in their order of arrival; Go's sort is not stable and may order them otherwise. No
  theorem below depends on the order among equal ids.
\<close>

definition Less :: "Build \<Rightarrow> Build \<Rightarrow> bool" where
  "Less a b = (Build_Id a <s Build_Id b)"

fun sort_insert :: "Build \<Rightarrow> Build list \<Rightarrow> Build list" where
  "sort_insert x [] = [x]"
| "sort_insert x (y # ys) = (if Less y x then y # sort_insert x ys else x # y # ys)"

fun sort_Sort :: "Build list \<Rightarrow> Build list" where
  "sort_Sort [] = []"
| "sort_Sort (x # xs) = sort_insert x (sort_Sort xs)"

text \<open>The loop over \<open>buildObjects\<close> that collects the stubs.\<close>

fun collect_builds :: "conv \<Rightarrow> json list \<Rightarrow> Build list" where
  "collect_builds cv [] = []"
| "collect_builds cv (b # buildObjects) =
     (case ProcessBuildObject cv b of
        Some build \<Rightarrow> build # collect_builds cv buildObjects
      | None \<Rightarrow> collect_builds cv buildObjects)"

text \<open>
  The truncation to the retention window, the same statement in both snapshots
  (\<open>main\<close> in one, \<open>ProcessJobObject\<close> in the other):
  \<^verbatim>\<open>if len(builds) > maxBuilds { builds = builds[len(builds) - maxBuilds:] }\<close>
\<close>

definition truncateBuilds :: "Build list \<Rightarrow> goint \<Rightarrow> panic + Build list" where
  "truncateBuilds builds maxBuilds =
     (if maxBuilds <s go_len builds then go_slice_from builds (go_len builds - maxBuilds)
      else Inr builds)"

text \<open>
  Calling \<open>FetchDetails\<close> on every build and discarding the error. In the other snapshot
  a pool of workers does it; every build is handed to exactly one worker and no call reads
  what another writes, so the result is that of the sequential loop.
\<close>

definition fetch_all :: "conv \<Rightarrow> http \<Rightarrow> Build list \<Rightarrow> Build list" where
  "fetch_all cv get builds = map (\<lambda>b. snd (FetchDetails cv get b)) builds"

text \<open>
  The part of \<open>ProcessJobObject\<close> the two snapshots share: from the job entry of a folder
  listing to the name, the URL and the sorted stubs.
\<close>

definition job_stubs ::
  "conv \<Rightarrow> http \<Rightarrow> Instance \<Rightarrow> json \<Rightarrow> (string \<times> string \<times> Build list) option" where
  "job_stubs cv get i jobIf =
     (case AsJsonObject jobIf of (job, ok) \<Rightarrow>
      if \<not> ok then None else
     (case GetString job ''_class'' of (class, ok) \<Rightarrow>
      if \<not> ok \<or> class \<noteq> ''hudson.model.FreeStyleProject'' then None else
     (case GetString job ''name'' of (name, ok) \<Rightarrow>
      if \<not> ok then None else
      if list_ex (\<lambda>ex. ex name) (Instance_Exclude i) then None else
     (case GetString job ''url'' of (url, ok) \<Rightarrow>
      if \<not> ok then None else
     (case get (url @ ''api/json'') of
        RequestFailed \<Rightarrow> None
      | DecodeFailed \<Rightarrow> None
      | Body details \<Rightarrow>
         (case GetArray details ''builds'' of (buildObjects, ok) \<Rightarrow>
          if \<not> ok then None else
          Some (name, url, sort_Sort (collect_builds cv buildObjects))))))))"

text \<open>\<open>ProcessJobObject\<close> of the snapshot that fetches the details from \<open>main\<close>.\<close>

definition ProcessJobObject :: "conv \<Rightarrow> http \<Rightarrow> Instance \<Rightarrow> json \<Rightarrow> Job option" where
  "ProcessJobObject cv get i jobIf =
     (case job_stubs cv get i jobIf of None \<Rightarrow> None
      | Some (name, url, builds) \<Rightarrow>
          Some \<lparr>Job_Name = name, Job_Url = url, Job_Builds = builds\<rparr>)"

text \<open>
  \<open>ProcessJobObject\<close> of \<^verbatim>\<open>jitdash.go\<close>, which takes \<open>maxBuilds\<close>, truncates and fetches
  the details itself. The slice expression can panic.
\<close>

definition ProcessJobObject_jitdash ::
  "conv \<Rightarrow> http \<Rightarrow> Instance \<Rightarrow> json \<Rightarrow> goint \<Rightarrow> panic + Job option" where
  "ProcessJobObject_jitdash cv get i jobIf maxBuilds =
     (case job_stubs cv get i jobIf of None \<Rightarrow> Inr None
      | Some (name, url, builds) \<Rightarrow>
         (case truncateBuilds builds maxBuilds of Inl p \<Rightarrow> Inl p
          | Inr builds' \<Rightarrow>
              Inr (Some \<lparr>Job_Name = name, Job_Url = url,
                         Job_Builds = fetch_all cv get builds'\<rparr>)))"

text \<open>The loop over \<open>jobObjects\<close>, appending to \<open>jobs\<close>.\<close>

fun jobs_loop :: "conv \<Rightarrow> http \<Rightarrow> Instance \<Rightarrow> json list \<Rightarrow> Job list \<Rightarrow> Job list" where
  "jobs_loop cv get i [] jobs = jobs"
| "jobs_loop cv get i (j # jobObjects) jobs =
     (case ProcessJobObject cv get i j of
        Some job \<Rightarrow> jobs_loop cv get i jobObjects (jobs @ [job])
      | None \<Rightarrow> jobs_loop cv get i jobObjects jobs)"

fun jobs_loop_jitdash ::
  "conv \<Rightarrow> http \<Rightarrow> Instance \<Rightarrow> goint \<Rightarrow> json list \<Rightarrow> Job list \<Rightarrow> panic + Job list" where
  "jobs_loop_jitdash cv get i maxBuilds [] jobs = Inr jobs"
| "jobs_loop_jitdash cv get i maxBuilds (j # jobObjects) jobs =
     (case ProcessJobObject_jitdash cv get i j maxBuilds of
        Inl p \<Rightarrow> Inl p
      | Inr (Some job) \<Rightarrow> jobs_loop_jitdash cv get i maxBuilds jobObjects (jobs @ [job])
      | Inr None \<Rightarrow> jobs_loop_jitdash cv get i maxBuilds jobObjects jobs)"

text \<open>
  \<open>FetchJobs\<close>, as the loop over the folder URLs with the variable \<open>jobs\<close>. The other
  snapshot reads the \<open>jobs\<close> array of whatever object the folder URL returns.
\<close>

fun folders_loop :: "conv \<Rightarrow> http \<Rightarrow> Instance \<Rightarrow> string list \<Rightarrow> Job list \<Rightarrow> Job list" where
  "folders_loop cv get i [] jobs = jobs"
| "folders_loop cv get i (folderUrl # folders) jobs =
     (case get folderUrl of
        RequestFailed \<Rightarrow> folders_loop cv get i folders jobs
      | DecodeFailed \<Rightarrow> folders_loop cv get i folders jobs
      | Body folder \<Rightarrow>
         (case GetArray folder ''jobs'' of (jobObjects, ok) \<Rightarrow>
          if \<not> ok then folders_loop cv get i folders jobs
          else folders_loop cv get i folders (jobs_loop cv get i jobObjects jobs)))"

definition FetchJobs :: "conv \<Rightarrow> http \<Rightarrow> Instance \<Rightarrow> Job list" where
  "FetchJobs cv get i = folders_loop cv get i (Instance_Folders i) []"

text \<open>\<open>FetchJobs\<close> of \<^verbatim>\<open>jitdash.go\<close>, which requires the folder tag first.\<close>

fun folders_loop_jitdash ::
  "conv \<Rightarrow> http \<Rightarrow> Instance \<Rightarrow> goint \<Rightarrow> string list \<Rightarrow> Job list \<Rightarrow> panic + Job list" where
  "folders_loop_jitdash cv get i maxBuilds [] jobs = Inr jobs"
| "folders_loop_jitdash cv get i maxBuilds (folderUrl # folders) jobs =
     (case get folderUrl of
        RequestFailed \<Rightarrow> folders_loop_jitdash cv get i maxBuilds folders jobs
      | DecodeFailed \<Rightarrow> folders_loop_jitdash cv get i maxBuilds folders jobs
      | Body folder \<Rightarrow>
         (case GetString folder ''_class'' of (class, ok) \<Rightarrow>
          if \<not> ok \<or> class \<noteq> ''com.cloudbees.hudson.plugins.folder.Folder''
          then folders_loop_jitdash cv get i maxBuilds folders jobs else
         (case GetArray folder ''jobs'' of (jobObjects, ok) \<Rightarrow>
          if \<not> ok then folders_loop_jitdash cv get i maxBuilds folders jobs
          else (case jobs_loop_jitdash cv get i maxBuilds jobObjects jobs of
                  Inl p \<Rightarrow> Inl p
                | Inr jobs' \<Rightarrow> folders_loop_jitdash cv get i maxBuilds folders jobs'))))"

definition FetchJobs_jitdash :: "conv \<Rightarrow> http \<Rightarrow> Instance \<Rightarrow> goint \<Rightarrow> panic + Job list" where
  "FetchJobs_jitdash cv get i maxBuilds =
     folders_loop_jitdash cv get i maxBuilds (Instance_Folders i) []"

text \<open>
  The body of the loop of \<open>main\<close> over the jobs, in the snapshot with the worker pool:
  truncate, then have the details of the retained builds fetched.
\<close>

definition main_fetch_job :: "conv \<Rightarrow> http \<Rightarrow> goint \<Rightarrow> Job \<Rightarrow> panic + Job" where
  "main_fetch_job cv get maxBuilds j =
     (case truncateBuilds (Job_Builds j) maxBuilds of Inl p \<Rightarrow> Inl p
      | Inr builds \<Rightarrow> Inr (j\<lparr>Job_Builds := fetch_all cv get builds\<rparr>))"

section \<open>Rendering\<close>

text \<open>
  The glyphs are runes (code points): U+2581 to U+2588, and \<open>'B'\<close> for a build in progress.
  \<open>RenderHistory\<close> writes to a buffer with two \<open>printf\<close> calls; the model keeps what each
  call is given instead of the formatted text: \<open>Pad\<close> for \<^verbatim>\<open>printf("%c", sparks[0])\<close>,
  and \<open>Link url title spark\<close> for the anchor with \<open>build.Url\<close>, \<open>title\<close> and \<open>spark\<close>.
\<close>

definition sparks :: "rune list" where
  "sparks = [9601, 9602, 9603, 9604, 9605, 9606, 9607, 9608]"

datatype cell = Pad rune | Link string string rune

text \<open>\<^verbatim>\<open>for ; count > len(job.Builds); count-- { printf("%c", sparks[0]) }\<close>\<close>

function pad_loop :: "Build list \<Rightarrow> goint \<Rightarrow> cell list \<times> goint" where
  "pad_loop builds count =
     (if go_len builds <s count
      then (case pad_loop builds (count - 1) of (out, count') \<Rightarrow> (Pad (sparks ! 0) # out, count'))
      else ([], count))"
  by pat_completeness auto
termination
proof (relation "measure (\<lambda>(builds, count). nat (sint count - sint (go_len builds)))", goal_cases)
  case 1
  show ?case by simp
next
  case (2 builds count)
  have "- (2 ^ 63) \<le> sint (go_len builds)"
    using sint_ge [of "go_len builds"] by simp
  moreover have "sint count < 2 ^ 63"
    using sint_lt [of count] by simp
  moreover have lt: "sint (go_len builds) < sint count"
    using 2 by (simp add: word_sless_alt)
  ultimately have "sint (count - 1) = sint count - 1"
    by (simp add: sint_word_ariths signed_take_bit_int_eq_self)
  with lt show ?case by simp
qed

text \<open>
  The scan for \<open>max\<close>:
  \<^verbatim>\<open>for i := start; i < len(job.Builds); i++ { if f := job.Builds[i].Failures; f > max { max = f } }\<close>
\<close>

function max_loop :: "Build list \<Rightarrow> goint \<Rightarrow> int64 \<Rightarrow> panic + int64" where
  "max_loop builds i mx =
     (if i <s go_len builds
      then (case go_index builds i of Inl p \<Rightarrow> Inl p
            | Inr b \<Rightarrow> max_loop builds (i + 1)
                        (if mx <s Build_Failures b then Build_Failures b else mx))
      else Inr mx)"
  by pat_completeness auto
termination
proof (relation "measure (\<lambda>(builds, i, mx). nat (sint (go_len builds) - sint i))", goal_cases)
  case 1
  show ?case by simp
next
  case (2 builds i mx b)
  have "sint (go_len builds) < 2 ^ 63"
    using sint_lt [of "go_len builds"] by simp
  moreover have "- (2 ^ 63) \<le> sint i"
    using sint_ge [of i] by simp
  moreover have lt: "sint i < sint (go_len builds)"
    using 2 by (simp add: word_sless_alt)
  ultimately have "sint (i + 1) = sint i + 1"
    by (simp add: sint_word_ariths signed_take_bit_int_eq_self)
  with lt show ?case by simp
qed

text \<open>
  The index of the default branch:
  \<^verbatim>\<open>percentile := float64(f) / float64(max)\<close> and
  \<^verbatim>\<open>1 + int(percentile * float64(len(sparks) - 2))\<close>.
\<close>

definition spark_index :: "conv \<Rightarrow> int64 \<Rightarrow> int64 \<Rightarrow> goint" where
  "spark_index cv mx f =
     (let percentile = float64_div (float64_of_int64 f) (float64_of_int64 mx)
      in 1 + int64_of_float64 cv
               (float64_mul percentile (float64_of_int64 (go_len sparks - 2))))"

text \<open>The body of the second loop: the glyph and the title of one build.\<close>

definition render_build :: "conv \<Rightarrow> int64 \<Rightarrow> Build \<Rightarrow> panic + cell" where
  "render_build cv mx build =
     (if Build_Complete build then
        (let f = Build_Failures build in
         if f = 0 then Inr (Link (Build_Url build) ''Passed'' (sparks ! 0))
         else if f = - 1
         then Inr (Link (Build_Url build) ''Failed'' (sparks ! (length sparks - 1)))
         else (case go_index sparks (spark_index cv mx f) of Inl p \<Rightarrow> Inl p
               | Inr spark \<Rightarrow>
                   Inr (Link (Build_Url build) (decimal (sint f) @ '' failures'') spark)))
      else Inr (Link (Build_Url build) ''building'' 66))"

function render_loop :: "conv \<Rightarrow> Build list \<Rightarrow> int64 \<Rightarrow> goint \<Rightarrow> panic + cell list" where
  "render_loop cv builds mx i =
     (if i <s go_len builds
      then (case go_index builds i of Inl p \<Rightarrow> Inl p
            | Inr build \<Rightarrow>
               (case render_build cv mx build of Inl p \<Rightarrow> Inl p
                | Inr c \<Rightarrow>
                   (case render_loop cv builds mx (i + 1) of Inl p \<Rightarrow> Inl p
                    | Inr cs \<Rightarrow> Inr (c # cs))))
      else Inr [])"
  by pat_completeness auto
termination
proof (relation "measure (\<lambda>(cv, builds, mx, i). nat (sint (go_len builds) - sint i))", goal_cases)
  case 1
  show ?case by simp
next
  case (2 cv builds mx i build c)
  have "sint (go_len builds) < 2 ^ 63"
    using sint_lt [of "go_len builds"] by simp
  moreover have "- (2 ^ 63) \<le> sint i"
    using sint_ge [of i] by simp
  moreover have lt: "sint i < sint (go_len builds)"
    using 2 by (simp add: word_sless_alt)
  ultimately have "sint (i + 1) = sint i + 1"
    by (simp add: sint_word_ariths signed_take_bit_int_eq_self)
  with lt show ?case by simp
qed

declare pad_loop.simps [simp del] max_loop.simps [simp del] render_loop.simps [simp del]

text \<open>
  \<open>RenderHistory\<close>: the padding, \<open>start\<close>, the scan for \<open>max\<close>, then the builds from
  \<open>start\<close> on. A panic leaves no output.
\<close>

definition RenderHistory_max :: "Build list \<Rightarrow> goint \<Rightarrow> panic + int64" where
  "RenderHistory_max builds count =
     (case pad_loop builds count of (pad, count') \<Rightarrow>
        max_loop builds (go_len builds - count') 0)"

text \<open>The value of \<open>start\<close>: \<open>len(job.Builds) - count\<close>, after the padding loop.\<close>

definition RenderHistory_start :: "Build list \<Rightarrow> goint \<Rightarrow> goint" where
  "RenderHistory_start builds count =
     (case pad_loop builds count of (pad, count') \<Rightarrow> go_len builds - count')"

definition RenderHistory :: "conv \<Rightarrow> Job \<Rightarrow> goint \<Rightarrow> panic + cell list" where
  "RenderHistory cv job count =
     (case pad_loop (Job_Builds job) count of (pad, count') \<Rightarrow>
      let start = go_len (Job_Builds job) - count' in
      (case max_loop (Job_Builds job) start 0 of Inl p \<Rightarrow> Inl p
       | Inr mx \<Rightarrow>
          (case render_loop cv (Job_Builds job) mx start of Inl p \<Rightarrow> Inl p
           | Inr cells \<Rightarrow> Inr (pad @ cells))))"

section \<open>Specification-side notions\<close>

text \<open>A build list in non-decreasing order of the (signed) ids.\<close>

abbreviation id_sorted :: "Build list \<Rightarrow> bool" where
  "id_sorted \<equiv> sorted_wrt (\<lambda>a b. Build_Id a \<le>s Build_Id b)"

text \<open>
  These definitions follow the words of the specification, to be compared with what the
  code computes. A test-result action is an entry of \<open>actions\<close> that is an object tagged
  \<open>hudson.tasks.junit.TestResultAction\<close>; the extracted count is the \<open>failCount\<close> of the
  last one, and 0 when there is none.
\<close>

definition is_test_result_action :: "json \<Rightarrow> bool" where
  "is_test_result_action a =
     (case a of
        JObject action \<Rightarrow>
          GetString action ''_class'' = (''hudson.tasks.junit.TestResultAction'', True)
      | _ \<Rightarrow> False)"

definition failCount_of :: "conv \<Rightarrow> json \<Rightarrow> int64" where
  "failCount_of cv a = fst (GetInt64 cv (fst (AsJsonObject a)) ''failCount'')"

definition last_failCount :: "conv \<Rightarrow> JsonObject \<Rightarrow> int64" where
  "last_failCount cv details =
     (case filter is_test_result_action (fst (GetArray details ''actions'')) of
        [] \<Rightarrow> 0
      | m # ms \<Rightarrow> failCount_of cv (last (m # ms)))"

text \<open>
  The conditions under which the specification has \<open>FetchDetails\<close> return an error: the
  request fails, the body does not decode, \<open>result\<close> is missing or not a string, or
  \<open>timestamp\<close> is missing or not a number.
\<close>

definition fetch_fails :: "conv \<Rightarrow> http \<Rightarrow> Build \<Rightarrow> bool" where
  "fetch_fails cv get b =
     (case get (Build_Url b @ ''api/json'') of
        RequestFailed \<Rightarrow> True
      | DecodeFailed \<Rightarrow> True
      | Body details \<Rightarrow>
          \<not> snd (GetString details ''result'') \<or> \<not> snd (GetInt64 cv details ''timestamp''))"

text \<open>
  The two encodings of a whole number \<open>n\<close> that \<open>GetInt64\<close> accepts: the \<open>float64\<close> that
  the decoder makes of the literal (the nearest \<open>float64\<close>), and the \<open>json.Number\<close>
  holding the decimal literal itself.
\<close>

definition float64_literal :: "int \<Rightarrow> float64" where
  "float64_literal n = Finite (round53 (of_int n))"

definition Number_literal :: "int \<Rightarrow> string" where
  "Number_literal n = decimal n"

text \<open>
  The trailing window of \<open>count\<close> builds (all of them when there are fewer, none for a
  negative \<open>count\<close>), and the largest \<open>failures\<close> among a list of builds, counted from 0
  as the scan of \<open>RenderHistory\<close> does.
\<close>

definition window :: "Build list \<Rightarrow> goint \<Rightarrow> Build list" where
  "window builds count = drop (length builds - nat (sint count)) builds"

definition largest_failures :: "Build list \<Rightarrow> int" where
  "largest_failures bs = Max (insert 0 (sint ` Build_Failures ` set bs))"

text \<open>The larger of two \<open>int64\<close> values, and the exact value of the product that the
  default branch of \<open>RenderHistory\<close> truncates, for the integers \<open>mx\<close> and \<open>f\<close>.\<close>

definition smax :: "int64 \<Rightarrow> int64 \<Rightarrow> int64" where
  "smax a b = (if a <s b then b else a)"

definition quant :: "int \<Rightarrow> int \<Rightarrow> rat" where
  "quant mx f = round53 (round53 (round53 (of_int f) / round53 (of_int mx)) * 6)"

section \<open>Example data\<close>

text \<open>
  A server with two listings that are not tagged as folders, one with a job and one without
  a \<open>jobs\<close> array, and the listing of that job.
\<close>

definition example_server :: http where
  "example_server u =
     (if u = ''f/api/json''
      then Body [(''_class'', JString ''hudson.model.ListView''),
                 (''jobs'', JArray [JObject [(''_class'', JString ''hudson.model.FreeStyleProject''),
                                            (''name'', JString ''j''), (''url'', JString ''j/'')]])]
      else if u = ''g/api/json'' then Body [(''_class'', JString ''hudson.model.ListView'')]
      else if u = ''j/api/json'' then Body [(''builds'', JArray [])]
      else RequestFailed)"


section \<open>Rounding to 53 bits\<close>

lemma rhe_of_int: "rhe (of_int n) = n"
  by (simp add: rhe_def)

lemma rhe_floor: "\<lfloor>y\<rfloor> \<le> rhe y" and rhe_ceil: "rhe y \<le> \<lfloor>y\<rfloor> + 1"
  by (simp_all add: rhe_def Let_def)

lemma rhe_mono: assumes "x \<le> y" shows "rhe x \<le> rhe y"
proof (cases "\<lfloor>x\<rfloor> = \<lfloor>y\<rfloor>")
  case True
  with assms show ?thesis by (auto simp: rhe_def Let_def)
next
  case False
  with assms have "\<lfloor>x\<rfloor> + 1 \<le> \<lfloor>y\<rfloor>" using floor_mono [OF assms] by linarith
  with rhe_ceil [of x] rhe_floor [of y] show ?thesis by linarith
qed

lemma bitlen_rat_bounds:
  assumes "0 < a"
  shows "(2::rat) powi (bitlen a - 1) \<le> of_int a" and "of_int a < (2::rat) powi (bitlen a)"
proof -
  from bitlen_bounds [OF assms] have l: "2 ^ nat (bitlen a - 1) \<le> a" and u: "a < 2 ^ nat (bitlen a)"
    by simp_all
  have pos: "1 \<le> bitlen a" using assms bitlen_eq_zero_iff [of a] bitlen_nonneg [of a] by linarith
  have "(of_int (2 ^ nat (bitlen a - 1)) :: rat) \<le> of_int a" using l by (simp only: of_int_le_iff)
  then show "(2::rat) powi (bitlen a - 1) \<le> of_int a" using pos by (simp add: power_int_def)
  have "(of_int a :: rat) < of_int (2 ^ nat (bitlen a))" using u by (simp only: of_int_less_iff)
  then show "of_int a < (2::rat) powi (bitlen a)" using pos by (simp add: power_int_def)
qed

lemma binade_bounds:
  assumes "0 < x"
  shows "2 powi (binade x + 52) \<le> x" and "x < 2 powi (binade x + 53)"
proof -
  obtain a b where q: "quotient_of x = (a, b)" by (cases "quotient_of x")
  then have b: "0 < b" and x: "x = of_int a / of_int b"
    using quotient_of_denom_pos quotient_of_div by blast+
  with assms have a: "0 < a" by (simp add: zero_less_divide_iff)
  define e where "e = bitlen a - bitlen b - 53"
  note A = bitlen_rat_bounds [OF a] and B = bitlen_rat_bounds [OF b]
  have bpos: "(0::rat) < of_int b" using b by simp
  have "x < 2 powi (bitlen a) / 2 powi (bitlen b - 1)"
    unfolding x using A(2) B(1) a
    by (intro frac_less) auto
  also have "\<dots> = 2 powi (bitlen a - (bitlen b - 1))" by (rule power_int_diff [symmetric]) simp
  also have "bitlen a - (bitlen b - 1) = e + 54" by (simp add: e_def)
  finally have up: "x < 2 powi (e + 54)" .
  have "e + 52 = bitlen a - 1 - bitlen b" by (simp add: e_def)
  then have "(2::rat) powi (e + 52) = 2 powi (bitlen a - 1 - bitlen b)" by (rule arg_cong)
  also have "\<dots> = 2 powi (bitlen a - 1) / 2 powi (bitlen b)" by (rule power_int_diff) simp
  also have "\<dots> < x"
    unfolding x using A(1) B(2) bpos
    by (intro frac_less2) auto
  finally have lo: "2 powi (e + 52) < x" .
  have bin: "binade x = (if 2 powi (e + 53) \<le> x then e + 1 else e)"
    by (simp add: binade_def q e_def Let_def)
  show "2 powi (binade x + 52) \<le> x"
    using lo by (auto simp: bin add.commute add.left_commute)
  show "x < 2 powi (binade x + 53)"
    using up by (auto simp: bin add.commute add.left_commute)
qed


lemma binade_mono:
  assumes "0 < x" "x \<le> y"
  shows "binade x \<le> binade y"
proof (rule ccontr)
  assume "\<not> binade x \<le> binade y"
  then have "binade y + 53 \<le> binade x + 52" by simp
  then have "(2::rat) powi (binade y + 53) \<le> 2 powi (binade x + 52)"
    by (intro power_int_increasing) auto
  moreover have "0 < y" using assms by simp
  ultimately show False
    using binade_bounds(1) [OF assms(1)] binade_bounds(2) [OF \<open>0 < y\<close>] assms(2) by linarith
qed

lemma round53_pos:
  assumes "0 < x"
  shows "round53 x = of_int (rhe (x / 2 powi binade x)) * 2 powi binade x"
  using assms by (simp add: round53_def Let_def)

lemma round53_pos_bounds:
  assumes "0 < x"
  shows "2 powi (binade x + 52) \<le> round53 x" and "round53 x \<le> 2 powi (binade x + 53)"
proof -
  let ?e = "binade x"
  have p: "(0::rat) < 2 powi ?e" by simp
  have "(2::rat) powi 52 \<le> x / 2 powi ?e"
    using binade_bounds(1) [OF assms] p by (simp add: power_int_add pos_le_divide_eq)
  then have "rhe (of_int (2 ^ 52)) \<le> rhe (x / 2 powi ?e)"
    by (intro rhe_mono) simp
  then have "(2::int) ^ 52 \<le> rhe (x / 2 powi ?e)" by (simp only: rhe_of_int)
  then have "(of_int (2 ^ 52) :: rat) \<le> of_int (rhe (x / 2 powi ?e))" by (simp only: of_int_le_iff)
  then have "(2::rat) powi 52 * 2 powi ?e \<le> of_int (rhe (x / 2 powi ?e)) * 2 powi ?e"
    using p by simp
  then show "2 powi (binade x + 52) \<le> round53 x"
    by (simp add: round53_pos [OF assms] power_int_add)
  have "x / 2 powi ?e \<le> (2::rat) powi 53"
    using binade_bounds(2) [OF assms] p by (simp add: power_int_add pos_divide_le_eq)
  then have "rhe (x / 2 powi ?e) \<le> rhe (of_int (2 ^ 53))"
    by (intro rhe_mono) simp
  then have "rhe (x / 2 powi ?e) \<le> (2::int) ^ 53" by (simp only: rhe_of_int)
  then have "(of_int (rhe (x / 2 powi ?e)) :: rat) \<le> of_int (2 ^ 53)" by (simp only: of_int_le_iff)
  then have "of_int (rhe (x / 2 powi ?e)) * 2 powi ?e \<le> (2::rat) powi 53 * 2 powi ?e"
    using p by simp
  then show "round53 x \<le> 2 powi (binade x + 53)"
    by (simp add: round53_pos [OF assms] power_int_add)
qed

lemma round53_mono_pos:
  assumes "0 < x" "x \<le> y"
  shows "round53 x \<le> round53 y"
proof (cases "binade x = binade y")
  case True
  have y: "0 < y" using assms by simp
  have "x / 2 powi binade y \<le> y / 2 powi binade y"
    using assms(2) by (simp add: divide_right_mono)
  then have "rhe (x / 2 powi binade y) \<le> rhe (y / 2 powi binade y)" by (rule rhe_mono)
  then have "(of_int (rhe (x / 2 powi binade y)) :: rat) \<le> of_int (rhe (y / 2 powi binade y))"
    by (simp only: of_int_le_iff)
  then show ?thesis
    by (simp add: round53_pos [OF assms(1)] round53_pos [OF y] True)
next
  case False
  have y: "0 < y" using assms by simp
  from False binade_mono [OF assms] have "binade x + 53 \<le> binade y + 52" by simp
  then have "(2::rat) powi (binade x + 53) \<le> 2 powi (binade y + 52)"
    by (intro power_int_increasing) auto
  with round53_pos_bounds(2) [OF assms(1)] round53_pos_bounds(1) [OF y]
  show ?thesis by linarith
qed

lemma round53_minus: "round53 (- x) = - round53 x"
  by (simp add: round53_def Let_def)

lemma round53_nonneg: "0 \<le> x \<Longrightarrow> 0 \<le> round53 x"
  using round53_pos_bounds(1) [of x] by (cases "x = 0") (auto simp: round53_def intro: order_trans [rotated])

lemma round53_mono:
  assumes "x \<le> y"
  shows "round53 x \<le> round53 y"
proof -
  consider "0 < x" | "x \<le> 0" "0 \<le> y" | "y < 0" by linarith
  then show ?thesis
  proof cases
    case 1 then show ?thesis using assms by (rule round53_mono_pos)
  next
    case 2
    then have "0 \<le> round53 (- x)" "0 \<le> round53 y" by (simp_all add: round53_nonneg)
    then show ?thesis by (simp add: round53_minus)
  next
    case 3
    then have "0 < - y" "- y \<le> - x" using assms by simp_all
    then have "round53 (- y) \<le> round53 (- x)" by (rule round53_mono_pos)
    then show ?thesis by (simp add: round53_minus)
  qed
qed

lemma round53_2_53: "round53 (2 ^ 53) = 2 ^ 53"
  by code_simp

lemma round53_of_int:
  assumes "\<bar>n\<bar> \<le> 2 ^ 53"
  shows "round53 (of_int n) = of_int n"
proof -
  have pos: "round53 (of_int m) = of_int m" if m: "0 < m" "m \<le> 2 ^ 53" for m :: int
  proof (cases "m = 2 ^ 53")
    case True
    then show ?thesis using round53_2_53 by simp
  next
    case False
    let ?x = "of_int m :: rat"
    let ?e = "binade ?x"
    have x: "0 < ?x" using m by simp
    have "m < 2 ^ 53" using False m(2) by simp
    then have "?x < of_int (2 ^ 53)" by (simp only: of_int_less_iff)
    then have lt: "?x < 2 powi 53" by simp
    have e: "?e \<le> 0"
    proof (rule ccontr)
      assume "\<not> ?e \<le> 0"
      then have "(2::rat) powi 53 \<le> 2 powi (?e + 52)" by (intro power_int_increasing) auto
      with binade_bounds(1) [OF x] lt show False by linarith
    qed
    then have "(2::rat) powi ?e = inverse (2 ^ nat (- ?e))"
      by (metis power_int_minus power_int_nonneg_exp minus_minus neg_0_le_iff_le)
    then have q: "?x / 2 powi ?e = of_int (m * 2 ^ nat (- ?e))"
      by (simp add: divide_inverse)
    have "of_int (rhe (?x / 2 powi ?e)) * 2 powi ?e = (of_int (m * 2 ^ nat (- ?e)) :: rat) * 2 powi ?e"
      by (simp only: q rhe_of_int)
    also have "\<dots> = ?x * (2 powi (- ?e) * 2 powi ?e)"
      using e by (simp add: power_int_nonneg_exp)
    also have "\<dots> = ?x" by (simp add: power_int_minus)
    finally show ?thesis by (simp only: round53_pos [OF x])
  qed
  consider "n = 0" | "0 < n" | "n < 0" by linarith
  then show ?thesis
  proof cases
    case 1 then show ?thesis by (simp add: round53_def)
  next
    case 2 then show ?thesis using pos [of n] assms by simp
  next
    case 3
    then have "round53 (of_int (- n)) = of_int (- n)" using assms by (intro pos) simp_all
    then show ?thesis by (simp add: round53_minus)
  qed
qed

text \<open>The relative error of a rounding is at most \<open>2 ^ -53\<close>.\<close>

lemma rhe_error: "\<bar>of_int (rhe y) - y\<bar> \<le> 1 / 2"
proof -
  have "0 \<le> y - of_int \<lfloor>y\<rfloor>" "y - of_int \<lfloor>y\<rfloor> < 1" by linarith+
  then show ?thesis by (auto simp: rhe_def Let_def)
qed

lemma round53_error:
  assumes "0 < x"
  shows "\<bar>round53 x - x\<bar> \<le> x / 2 ^ 53"
proof -
  let ?e = "binade x"
  let ?y = "x / 2 powi ?e"
  have p: "(0::rat) < 2 powi ?e" by simp
  have "round53 x - x = (of_int (rhe ?y) - ?y) * 2 powi ?e"
    using p by (simp add: round53_pos [OF assms] algebra_simps)
  then have "\<bar>round53 x - x\<bar> = \<bar>of_int (rhe ?y) - ?y\<bar> * 2 powi ?e"
    using p by (simp add: abs_mult)
  also have "\<dots> \<le> (1 / 2) * 2 powi ?e"
    using rhe_error [of ?y] p by (intro mult_right_mono) simp_all
  also have "\<dots> \<le> x / 2 ^ 53"
  proof -
    have "2 powi ?e * 2 ^ 52 \<le> x"
      using binade_bounds(1) [OF assms] by (simp add: power_int_add)
    then show ?thesis by (simp add: field_simps)
  qed
  finally show ?thesis .
qed

section \<open>Signed 64-bit arithmetic\<close>

lemma sint64_ge: "- (2 ^ 63) \<le> sint (w :: 64 word)"
  using sint_ge [of w] by simp

lemma sint64_lt: "sint (w :: 64 word) < 2 ^ 63"
  using sint_lt [of w] by simp

lemma sint64_eq: "- (2 ^ 63) \<le> k \<Longrightarrow> k < 2 ^ 63 \<Longrightarrow> sint (word_of_int k :: 64 word) = k"
  by (simp add: signed_of_int signed_take_bit_int_eq_self)

lemma sint_succ: "sint (i :: 64 word) < sint (n :: 64 word) \<Longrightarrow> sint (i + 1) = sint i + 1"
  using sint64_ge [of i] sint64_lt [of n]
  by (simp add: sint_word_ariths signed_take_bit_int_eq_self)

lemma sint_pred: "sint (n :: 64 word) < sint (i :: 64 word) \<Longrightarrow> sint (i - 1) = sint i - 1"
  using sint64_ge [of n] sint64_lt [of i]
  by (simp add: sint_word_ariths signed_take_bit_int_eq_self)

lemma sint_go_len: "length xs < 2 ^ 63 \<Longrightarrow> sint (go_len xs) = int (length xs)"
proof -
  assume "length xs < 2 ^ 63"
  then have "sint (word_of_int (int (length xs)) :: 64 word) = int (length xs)"
    by (intro sint64_eq) auto
  then show ?thesis by (simp add: go_len_def)
qed

section \<open>Build details\<close>

lemma actions_loop_filter:
  "actions_loop cv actions failures =
     (case filter is_test_result_action actions of
        [] \<Rightarrow> failures
      | m # ms \<Rightarrow> failCount_of cv (last (m # ms)))"
proof (induction actions arbitrary: failures)
  case Nil
  show ?case by simp
next
  case (Cons a actions)
  show ?case
  proof (cases "is_test_result_action a")
    case True
    then obtain action where a: "a = JObject action"
      and c: "GetString action ''_class'' = (''hudson.tasks.junit.TestResultAction'', True)"
      by (auto simp: is_test_result_action_def split: json.splits)
    have "actions_loop cv (a # actions) failures
            = actions_loop cv actions (failCount_of cv a)"
      by (simp add: a c AsJsonObject_def failCount_of_def)
    also have "\<dots> = (case filter is_test_result_action actions of
        [] \<Rightarrow> failCount_of cv a
      | m # ms \<Rightarrow> failCount_of cv (last (m # ms)))"
      by (rule Cons.IH)
    finally show ?thesis using True by (simp split: list.splits)
  next
    case False
    then have "actions_loop cv (a # actions) failures = actions_loop cv actions failures"
      by (auto simp: is_test_result_action_def AsJsonObject_def split: json.splits prod.splits)
    then show ?thesis using False by (simp add: Cons.IH)
  qed
qed

lemma FetchDetails_error_iff:
  "fst (FetchDetails cv get b) \<noteq> None \<longleftrightarrow> fetch_fails cv get b"
  by (auto simp: FetchDetails_def fetch_fails_def Let_def split: response.splits prod.splits)

lemma FetchDetails_error_same:
  "fst (FetchDetails cv get b) \<noteq> None \<Longrightarrow> snd (FetchDetails cv get b) = b"
  by (auto simp: FetchDetails_def Let_def split: response.splits prod.splits if_splits)

lemma actions_count:
  "(case GetArray details ''actions'' of (actions, ok) \<Rightarrow>
      if ok then actions_loop cv actions 0 else 0) = last_failCount cv details"
  by (auto simp: last_failCount_def actions_loop_filter GetArray_def
           split: prod.splits option.splits json.splits list.splits)

lemma FetchDetails_ok_failures:
  assumes "get (Build_Url b @ ''api/json'') = Body details"
    and "fst (FetchDetails cv get b) = None"
  shows "Build_Failures (snd (FetchDetails cv get b)) =
           (if last_failCount cv details = 0 \<and> fst (GetString details ''result'') = ''FAILURE''
            then - 1 else last_failCount cv details)"
proof -
  obtain result ok1 where r: "GetString details ''result'' = (result, ok1)"
    by (cases "GetString details ''result''")
  obtain ms ok2 where t: "GetInt64 cv details ''timestamp'' = (ms, ok2)"
    by (cases "GetInt64 cv details ''timestamp''")
  from assms have ok: "ok1" "ok2"
    by (auto simp: FetchDetails_def r t split: if_splits)
  have "Build_Failures (snd (FetchDetails cv get b)) =
          (if (case GetArray details ''actions'' of (actions, ok) \<Rightarrow>
                 if ok then actions_loop cv actions 0 else 0) = 0 \<and> result = ''FAILURE''
           then - 1
           else (case GetArray details ''actions'' of (actions, ok) \<Rightarrow>
                   if ok then actions_loop cv actions 0 else 0))"
    by (simp add: FetchDetails_def assms(1) r t ok Let_def)
  then show ?thesis by (simp only: actions_count r fst_conv)
qed

text \<open>
  C7. An error return of \<open>FetchDetails\<close> leaves the build as it was. The call returns an
  error exactly when the request fails, the body does not decode, \<open>result\<close> is missing or
  not a string, or \<open>timestamp\<close> is missing or not a number; then no field of the build has
  been written, so a stub made by \<open>ProcessBuildObject\<close> keeps the zero \<open>Timestamp\<close>,
  \<open>Failures = 0\<close> and \<open>Complete = false\<close>.
\<close>

theorem FetchDetails_atomic_on_error:
  "(fst (FetchDetails cv get b) \<noteq> None \<longleftrightarrow> fetch_fails cv get b) \<and>
   (fst (FetchDetails cv get b) \<noteq> None \<longrightarrow>
      snd (FetchDetails cv get b) = b \<and>
      (ProcessBuildObject cv buildIf = Some b \<longrightarrow>
         Build_Timestamp (snd (FetchDetails cv get b)) = ZeroTime \<and>
         Build_Failures (snd (FetchDetails cv get b)) = 0 \<and>
         \<not> Build_Complete (snd (FetchDetails cv get b))))"
proof -
  have "ProcessBuildObject cv buildIf = Some b \<Longrightarrow>
          Build_Timestamp b = ZeroTime \<and> Build_Failures b = 0 \<and> \<not> Build_Complete b"
    by (auto simp: ProcessBuildObject_def Build_lit_def split: prod.splits if_splits)
  then show ?thesis
    using FetchDetails_error_iff [of cv get b] FetchDetails_error_same [of cv get b] by auto
qed

theorem FetchDetails_atomic_on_error_witness:
  "ProcessBuildObject (\<lambda>x. 0)
      (JObject [(''_class'', JString ''hudson.model.FreeStyleBuild''),
                (''number'', JFloat (Finite 7)), (''url'', JString ''u/'')])
     = Some \<lparr>Build_Id = 7, Build_Url = ''u/'', Build_Timestamp = ZeroTime,
             Build_Failures = 0, Build_Complete = False\<rparr> \<and>
   FetchDetails (\<lambda>x. 0) (\<lambda>u. Body [(''result'', JString ''FAILURE'')])
      \<lparr>Build_Id = 7, Build_Url = ''u/'', Build_Timestamp = ZeroTime,
       Build_Failures = 0, Build_Complete = False\<rparr>
     = (Some missingTimestampError,
        \<lparr>Build_Id = 7, Build_Url = ''u/'', Build_Timestamp = ZeroTime,
         Build_Failures = 0, Build_Complete = False\<rparr>)"
proof -
  let ?b = "\<lparr>Build_Id = 7, Build_Url = ''u/'', Build_Timestamp = ZeroTime,
              Build_Failures = 0, Build_Complete = False\<rparr>"
  let ?get = "\<lambda>u::string. Body [(''result'', JString ''FAILURE'')]"
  let ?j = "JObject [(''_class'', JString ''hudson.model.FreeStyleBuild''),
                (''number'', JFloat (Finite 7)), (''url'', JString ''u/'')]"
  have p: "ProcessBuildObject (\<lambda>x. 0) ?j = Some ?b"
    by (simp add: ProcessBuildObject_def Build_lit_def AsJsonObject_def GetString_def
          GetInt64_def trunc_rat_def)
  have e: "fst (FetchDetails (\<lambda>x. 0) ?get ?b) = Some missingTimestampError"
    by (simp add: FetchDetails_def GetString_def GetInt64_def)
  then have "fst (FetchDetails (\<lambda>x. 0) ?get ?b) \<noteq> None" by simp
  with FetchDetails_atomic_on_error [of "\<lambda>x. 0" ?get ?b ?j]
  have "snd (FetchDetails (\<lambda>x. 0) ?get ?b) = ?b" by blast
  with e p show ?thesis by (simp add: prod_eq_iff)
qed

text \<open>
  C2. When \<open>FetchDetails\<close> succeeds on the decoded details, the failure count it stores
  is the \<open>failCount\<close> of the last test-result action of \<open>actions\<close> (0 when there is none
  or the array is missing), replaced by the sentinel \<open>-1\<close> exactly when that count is 0 and
  \<open>result\<close> is \<open>FAILURE\<close>; in every other case, a positive count among them, it is
  stored unchanged.
\<close>

theorem FetchDetails_failures_sentinel:
  assumes "get (Build_Url b @ ''api/json'') = Body details"
    and "fst (FetchDetails cv get b) = None"
  shows "Build_Failures (snd (FetchDetails cv get b)) =
           (if last_failCount cv details = 0 \<and> fst (GetString details ''result'') = ''FAILURE''
            then - 1 else last_failCount cv details) \<and>
         (0 <s last_failCount cv details \<longrightarrow>
           Build_Failures (snd (FetchDetails cv get b)) = last_failCount cv details)"
proof -
  have main: "Build_Failures (snd (FetchDetails cv get b)) =
           (if last_failCount cv details = 0 \<and> fst (GetString details ''result'') = ''FAILURE''
            then - 1 else last_failCount cv details)"
    using assms by (rule FetchDetails_ok_failures)
  moreover have "Build_Failures (snd (FetchDetails cv get b)) = last_failCount cv details"
    if "0 <s last_failCount cv details"
  proof -
    from that have "last_failCount cv details \<noteq> 0" by auto
    with main show ?thesis by simp
  qed
  ultimately show ?thesis by blast
qed

theorem FetchDetails_failures_sentinel_witness:
  "FetchDetails (\<lambda>x. 0)
     (\<lambda>u. Body
        [(''result'', JString ''FAILURE''), (''timestamp'', JFloat (Finite 1500)),
         (''actions'', JArray
            [JObject [(''_class'', JString ''hudson.tasks.junit.TestResultAction''),
                      (''failCount'', JFloat (Finite 3))],
             JString ''x'',
             JObject [(''_class'', JString ''hudson.tasks.junit.TestResultAction''),
                      (''failCount'', JFloat (Finite 0))]])])
     \<lparr>Build_Id = 7, Build_Url = ''u/'', Build_Timestamp = ZeroTime,
      Build_Failures = 0, Build_Complete = False\<rparr>
     = (None, \<lparr>Build_Id = 7, Build_Url = ''u/'', Build_Timestamp = Unix 1,
               Build_Failures = - 1, Build_Complete = True\<rparr>)"
proof -
  let ?d = "[(''result'', JString ''FAILURE''), (''timestamp'', JFloat (Finite 1500)),
         (''actions'', JArray
            [JObject [(''_class'', JString ''hudson.tasks.junit.TestResultAction''),
                      (''failCount'', JFloat (Finite 3))],
             JString ''x'',
             JObject [(''_class'', JString ''hudson.tasks.junit.TestResultAction''),
                      (''failCount'', JFloat (Finite 0))]])]"
  let ?b = "\<lparr>Build_Id = 7, Build_Url = ''u/'', Build_Timestamp = ZeroTime,
              Build_Failures = 0, Build_Complete = False\<rparr>"
  let ?r = "FetchDetails (\<lambda>x. 0) (\<lambda>u. Body ?d) ?b"
  have g: "(\<lambda>u::string. Body ?d) (Build_Url ?b @ ''api/json'') = Body ?d" by simp
  have ok: "fst ?r = None"
    by (simp add: FetchDetails_def GetString_def GetInt64_def trunc_rat_def Let_def)
  have l: "last_failCount (\<lambda>x. 0) ?d = 0"
    by (simp add: last_failCount_def is_test_result_action_def failCount_of_def GetString_def
          GetInt64_def GetArray_def AsJsonObject_def trunc_rat_def)
  have r: "fst (GetString ?d ''result'') = ''FAILURE''" by (simp add: GetString_def)
  from FetchDetails_failures_sentinel [OF g ok] l r
  have f: "Build_Failures (snd ?r) = - 1" by simp
  have rest: "Build_Id (snd ?r) = 7" "Build_Url (snd ?r) = ''u/''"
    "Build_Timestamp (snd ?r) = Unix 1" "Build_Complete (snd ?r)"
    by (simp_all add: FetchDetails_def GetString_def GetInt64_def GetBool_def trunc_rat_def
          int64_div_def time_Unix_def Let_def)
  from ok f rest show ?thesis by (cases ?r, cases "snd ?r") auto
qed

section \<open>Sorting and truncation\<close>

lemma set_sort_insert: "set (sort_insert x ys) = insert x (set ys)"
  by (induction ys) auto

lemma sorted_sort_insert: "id_sorted ys \<Longrightarrow> id_sorted (sort_insert x ys)"
proof (induction ys)
  case Nil
  show ?case by simp
next
  case (Cons y ys)
  show ?case
  proof (cases "Less y x")
    case True
    then have "Build_Id y \<le>s Build_Id x" by (simp add: Less_def word_sless_alt word_sle_eq)
    with Cons True show ?thesis by (auto simp: set_sort_insert)
  next
    case False
    then have xy: "Build_Id x \<le>s Build_Id y" by (simp add: Less_def word_sless_alt word_sle_eq)
    have "Build_Id x \<le>s Build_Id z" if "z \<in> set ys" for z
    proof -
      from Cons.prems that have "Build_Id y \<le>s Build_Id z" by simp
      with xy show ?thesis by (simp add: word_sle_eq)
    qed
    with Cons.prems False xy show ?thesis by simp
  qed
qed


lemma sorted_sort_Sort: "id_sorted (sort_Sort xs)"
  by (induction xs) (simp_all add: sorted_sort_insert)

lemma count_sort_insert: "count_list (sort_insert x ys) b = count_list (x # ys) b"
  by (induction ys) auto

lemma count_sort_Sort: "count_list (sort_Sort xs) b = count_list xs b"
  by (induction xs) (simp_all add: count_sort_insert)

lemma FetchDetails_Id: "Build_Id (snd (FetchDetails cv get b)) = Build_Id b"
  by (auto simp: FetchDetails_def Let_def split: response.splits prod.splits)

lemma sorted_fetch_all: "id_sorted bs \<Longrightarrow> id_sorted (fetch_all cv get bs)"
  by (simp add: fetch_all_def sorted_wrt_map FetchDetails_Id)

lemma truncateBuilds_nonneg:
  assumes "0 \<le>s maxBuilds" and "length builds < 2 ^ 63"
  shows "truncateBuilds builds maxBuilds =
           Inr (drop (length builds - nat (sint maxBuilds)) builds)"
proof (cases "maxBuilds <s go_len builds")
  case True
  from assms(1) have m: "0 \<le> sint maxBuilds" by (simp add: word_sle_eq)
  from True have lt: "sint maxBuilds < int (length builds)"
    by (simp add: word_sless_alt sint_go_len [OF assms(2)])
  have "sint (go_len builds - maxBuilds) = int (length builds) - sint maxBuilds"
    using m lt assms(2) sint64_lt [of maxBuilds]
    by (simp add: sint_word_ariths sint_go_len [OF assms(2)] signed_take_bit_int_eq_self)
  moreover have "nat (int (length builds) - sint maxBuilds) = length builds - nat (sint maxBuilds)"
    using m by linarith
  ultimately show ?thesis
    using True m lt by (simp add: truncateBuilds_def go_slice_from_def)
next
  case False
  then have "int (length builds) \<le> sint maxBuilds"
    by (simp add: word_sless_alt sint_go_len [OF assms(2)])
  then have "length builds - nat (sint maxBuilds) = 0" by linarith
  with False show ?thesis by (simp add: truncateBuilds_def)
qed

lemma truncateBuilds_negative:
  assumes "maxBuilds <s 0" and "length builds < 2 ^ 63"
  shows "truncateBuilds builds maxBuilds = Inl SliceBoundsOutOfRange"
    and "\<not> (0 \<le> sint (go_len builds - maxBuilds) \<and>
            sint (go_len builds - maxBuilds) \<le> int (length builds))"
    and "int (length builds) - sint maxBuilds < 2 ^ 63 \<Longrightarrow>
           int (length builds) < sint (go_len builds - maxBuilds)"
proof -
  from assms(1) have m: "sint maxBuilds < 0" by (simp add: word_sless_alt)
  let ?d = "int (length builds) - sint maxBuilds"
  have s: "sint (go_len builds - maxBuilds) = signed_take_bit 63 ?d"
    by (simp add: sint_word_ariths sint_go_len [OF assms(2)])
  have d: "int (length builds) < ?d" "?d < 2 ^ 64"
    using m assms(2) sint64_ge [of maxBuilds] by auto
  have out: "\<not> (0 \<le> signed_take_bit 63 ?d \<and> signed_take_bit 63 ?d \<le> int (length builds))"
  proof (cases "?d < 2 ^ 63")
    case True
    then have "signed_take_bit 63 ?d = ?d"
      using d by (intro signed_take_bit_int_eq_self) auto
    with d show ?thesis by simp
  next
    case False
    then have "signed_take_bit 63 ?d \<le> ?d - 2 ^ Suc 63"
      by (intro signed_take_bit_int_less_eq) simp
    then have "signed_take_bit 63 ?d \<le> ?d - 2 ^ 64" by simp
    with d show ?thesis by linarith
  qed
  show "\<not> (0 \<le> sint (go_len builds - maxBuilds) \<and>
            sint (go_len builds - maxBuilds) \<le> int (length builds))"
    unfolding s by (rule out)
  have "maxBuilds <s go_len builds"
    using m by (simp add: word_sless_alt sint_go_len [OF assms(2)])
  with out show "truncateBuilds builds maxBuilds = Inl SliceBoundsOutOfRange"
    by (auto simp: truncateBuilds_def go_slice_from_def s)
  assume "?d < 2 ^ 63"
  then have "signed_take_bit 63 ?d = ?d"
    using d by (intro signed_take_bit_int_eq_self) auto
  with d show "int (length builds) < sint (go_len builds - maxBuilds)" by (simp add: s)
qed

lemma truncateBuilds_drop:
  "truncateBuilds builds maxBuilds = Inr kept \<Longrightarrow> \<exists>k. kept = drop k builds"
  by (auto simp: truncateBuilds_def go_slice_from_def split: if_splits intro: exI [of _ 0])

lemma main_fetch_job_panics_iff:
  assumes "length (Job_Builds j) < 2 ^ 63"
  shows "(\<exists>p. main_fetch_job cv get maxBuilds j = Inl p) \<longleftrightarrow> maxBuilds <s 0"
proof (cases "maxBuilds <s 0")
  case True
  then show ?thesis
    using truncateBuilds_negative(1) [OF True assms] by (simp add: main_fetch_job_def)
next
  case False
  then have "0 \<le>s maxBuilds" by (simp add: word_sless_alt word_sle_eq)
  then show ?thesis
    using False truncateBuilds_nonneg [OF _ assms, of maxBuilds]
    by (simp add: main_fetch_job_def)
qed

lemma job_stubs_sorted:
  "job_stubs cv get i jobIf = Some (name, url, builds) \<Longrightarrow> id_sorted builds"
  by (auto simp: job_stubs_def sorted_sort_Sort split: prod.splits if_splits response.splits)

text \<open>
  C5. Every job that \<open>ProcessJobObject\<close> produces, in either snapshot and whatever the
  order of the entries of the \<open>builds\<close> array the server returned, has its \<open>Builds\<close> in
  non-decreasing order of \<open>Id\<close>.
\<close>

theorem ProcessJobObject_builds_sorted:
  "(ProcessJobObject cv get i jobIf = Some job \<longrightarrow> id_sorted (Job_Builds job)) \<and>
   (ProcessJobObject_jitdash cv get i jobIf maxBuilds = Inr (Some job') \<longrightarrow>
      id_sorted (Job_Builds job'))"
proof (intro conjI impI)
  assume "ProcessJobObject cv get i jobIf = Some job"
  then show "id_sorted (Job_Builds job)"
    by (auto simp: ProcessJobObject_def split: option.splits dest: job_stubs_sorted)
next
  assume a: "ProcessJobObject_jitdash cv get i jobIf maxBuilds = Inr (Some job')"
  then obtain name url builds kept where
    st: "job_stubs cv get i jobIf = Some (name, url, builds)"
    and tr: "truncateBuilds builds maxBuilds = Inr kept"
    and j: "Job_Builds job' = fetch_all cv get kept"
    by (auto simp: ProcessJobObject_jitdash_def split: option.splits sum.splits)
  from tr obtain k where "kept = drop k builds" by (auto dest: truncateBuilds_drop)
  with job_stubs_sorted [OF st] have "id_sorted kept" by (simp add: sorted_wrt_drop)
  then show "id_sorted (Job_Builds job')" by (simp add: j sorted_fetch_all)
qed

theorem ProcessJobObject_builds_sorted_witness:
  "ProcessJobObject conv_amd64
     (\<lambda>u. Body [(''builds'', JArray
        [JObject [(''_class'', JString ''hudson.model.FreeStyleBuild''),
                  (''number'', JFloat (Finite 3)), (''url'', JString ''c'')],
         JObject [(''_class'', JString ''hudson.model.FreeStyleBuild''),
                  (''number'', JFloat (Finite 1)), (''url'', JString ''a'')],
         JObject [(''_class'', JString ''hudson.model.FreeStyleBuild''),
                  (''number'', JFloat (Finite 2)), (''url'', JString ''b'')]])])
     \<lparr>Instance_Name = ''ci'', Instance_Folders = [], Instance_Exclude = []\<rparr>
     (JObject [(''_class'', JString ''hudson.model.FreeStyleProject''),
               (''name'', JString ''j''), (''url'', JString ''j/'')])
   = Some \<lparr>Job_Name = ''j'', Job_Url = ''j/'',
           Job_Builds = [Build_lit 1 ''a'', Build_lit 2 ''b'', Build_lit 3 ''c'']\<rparr> \<and>
   id_sorted [Build_lit 1 ''a'', Build_lit 2 ''b'', Build_lit 3 ''c''] \<and>
   ProcessJobObject_jitdash conv_amd64
     (\<lambda>u. Body [(''builds'', JArray
        [JObject [(''_class'', JString ''hudson.model.FreeStyleBuild''),
                  (''number'', JFloat (Finite 3)), (''url'', JString ''c'')],
         JObject [(''_class'', JString ''hudson.model.FreeStyleBuild''),
                  (''number'', JFloat (Finite 1)), (''url'', JString ''a'')],
         JObject [(''_class'', JString ''hudson.model.FreeStyleBuild''),
                  (''number'', JFloat (Finite 2)), (''url'', JString ''b'')]])])
     \<lparr>Instance_Name = ''ci'', Instance_Folders = [], Instance_Exclude = []\<rparr>
     (JObject [(''_class'', JString ''hudson.model.FreeStyleProject''),
               (''name'', JString ''j''), (''url'', JString ''j/'')]) 2
   = Inr (Some \<lparr>Job_Name = ''j'', Job_Url = ''j/'',
                Job_Builds = [Build_lit 2 ''b'', Build_lit 3 ''c'']\<rparr>) \<and>
   id_sorted [Build_lit 2 ''b'', Build_lit 3 ''c'']"
proof -
  let ?get = "\<lambda>u::string. Body [(''builds'', JArray
        [JObject [(''_class'', JString ''hudson.model.FreeStyleBuild''),
                  (''number'', JFloat (Finite 3)), (''url'', JString ''c'')],
         JObject [(''_class'', JString ''hudson.model.FreeStyleBuild''),
                  (''number'', JFloat (Finite 1)), (''url'', JString ''a'')],
         JObject [(''_class'', JString ''hudson.model.FreeStyleBuild''),
                  (''number'', JFloat (Finite 2)), (''url'', JString ''b'')]])]"
  let ?i = "\<lparr>Instance_Name = ''ci'', Instance_Folders = [], Instance_Exclude = []\<rparr>"
  let ?j = "JObject [(''_class'', JString ''hudson.model.FreeStyleProject''),
               (''name'', JString ''j''), (''url'', JString ''j/'')]"
  let ?job = "\<lparr>Job_Name = ''j'', Job_Url = ''j/'',
           Job_Builds = [Build_lit 1 ''a'', Build_lit 2 ''b'', Build_lit 3 ''c'']\<rparr>"
  let ?job' = "\<lparr>Job_Name = ''j'', Job_Url = ''j/'',
           Job_Builds = [Build_lit 2 ''b'', Build_lit 3 ''c'']\<rparr>"
  have st: "job_stubs conv_amd64 ?get ?i ?j =
              Some (''j'', ''j/'', [Build_lit 1 ''a'', Build_lit 2 ''b'', Build_lit 3 ''c''])"
    by (simp add: job_stubs_def ProcessBuildObject_def AsJsonObject_def
        GetString_def GetInt64_def GetArray_def trunc_rat_def Less_def word_sless_alt
        Build_lit_def)
  have e: "ProcessJobObject conv_amd64 ?get ?i ?j = Some ?job"
    by (simp add: ProcessJobObject_def st)
  have tr: "truncateBuilds [Build_lit 1 ''a'', Build_lit 2 ''b'', Build_lit 3 ''c''] 2
              = Inr [Build_lit 2 ''b'', Build_lit 3 ''c'']"
    by (simp add: truncateBuilds_def go_slice_from_def go_len_def word_sless_alt)
  have fd: "fetch_all conv_amd64 ?get [Build_lit 2 ''b'', Build_lit 3 ''c'']
              = [Build_lit 2 ''b'', Build_lit 3 ''c'']"
    by (simp add: fetch_all_def FetchDetails_def GetString_def)
  have e': "ProcessJobObject_jitdash conv_amd64 ?get ?i ?j 2 = Inr (Some ?job')"
    by (simp add: ProcessJobObject_jitdash_def st tr fd)
  from ProcessJobObject_builds_sorted [of conv_amd64 ?get ?i ?j ?job 2 ?job'] e e'
  have "id_sorted (Job_Builds ?job)" and "id_sorted (Job_Builds ?job')" by blast+
  with e e' show ?thesis by simp
qed

text \<open>
  C6. Truncating a sorted build list of length \<open>n\<close> with a retention window
  \<open>maxBuilds \<ge> 0\<close> does not panic and keeps a suffix of length \<open>min n maxBuilds\<close>; every
  build it drops has an id no greater than every build it keeps, so the kept builds are
  those with the highest ids.
\<close>

theorem truncateBuilds_retention:
  assumes "id_sorted builds" and "0 \<le>s maxBuilds" and "length builds < 2 ^ 63"
  shows "\<exists>kept dropped. truncateBuilds builds maxBuilds = Inr kept \<and>
           builds = dropped @ kept \<and>
           length kept = min (length builds) (nat (sint maxBuilds)) \<and>
           (\<forall>d \<in> set dropped. \<forall>k \<in> set kept. Build_Id d \<le>s Build_Id k)"
proof -
  let ?n = "length builds - nat (sint maxBuilds)"
  have t: "truncateBuilds builds maxBuilds = Inr (drop ?n builds)"
    using assms(2,3) by (rule truncateBuilds_nonneg)
  have a: "builds = take ?n builds @ drop ?n builds" by simp
  have l: "length (drop ?n builds) = min (length builds) (nat (sint maxBuilds))" by auto
  from assms(1) have "id_sorted (take ?n builds @ drop ?n builds)" by simp
  then have "\<forall>d \<in> set (take ?n builds). \<forall>k \<in> set (drop ?n builds). Build_Id d \<le>s Build_Id k"
    by (simp only: sorted_wrt_append) blast
  with t a l show ?thesis by blast
qed

theorem truncateBuilds_retention_witness:
  "id_sorted [Build_lit 1 ''a'', Build_lit 2 ''b'', Build_lit 3 ''c''] \<and> (0::goint) \<le>s 2 \<and>
   length [Build_lit 1 ''a'', Build_lit 2 ''b'', Build_lit 3 ''c''] < 2 ^ 63 \<and>
   truncateBuilds [Build_lit 1 ''a'', Build_lit 2 ''b'', Build_lit 3 ''c''] 2
     = Inr [Build_lit 2 ''b'', Build_lit 3 ''c''] \<and>
   (\<exists>kept dropped.
      truncateBuilds [Build_lit 1 ''a'', Build_lit 2 ''b'', Build_lit 3 ''c''] 2 = Inr kept \<and>
      [Build_lit 1 ''a'', Build_lit 2 ''b'', Build_lit 3 ''c''] = dropped @ kept \<and>
      length kept = min (length [Build_lit 1 ''a'', Build_lit 2 ''b'', Build_lit 3 ''c''])
                        (nat (sint (2::goint))) \<and>
      (\<forall>d \<in> set dropped. \<forall>k \<in> set kept. Build_Id d \<le>s Build_Id k))"
proof -
  let ?bs = "[Build_lit 1 ''a'', Build_lit 2 ''b'', Build_lit 3 ''c'']"
  have h1: "id_sorted ?bs" by (simp add: Build_lit_def word_sle_eq)
  have h2: "(0::goint) \<le>s 2" by (simp add: word_sle_eq)
  have h3: "length ?bs < 2 ^ 63" by simp
  have e: "truncateBuilds ?bs 2 = Inr [Build_lit 2 ''b'', Build_lit 3 ''c'']"
    by (simp add: truncateBuilds_def go_slice_from_def go_len_def word_sless_alt)
  from truncateBuilds_retention [OF h1 h2 h3] h1 h2 h3 e show ?thesis by blast
qed

text \<open>
  C9, as amended. With a negative \<open>maxBuilds\<close> the truncation panics for every build
  list: the start index \<open>len(builds) - maxBuilds\<close> lies outside \<open>0 .. len(builds)\<close>. It is
  greater than the length unless the subtraction overflows; when it overflows
  (\<open>len(builds) - maxBuilds \<ge> 2 ^ 63\<close>) the index wraps to a negative number. With
  \<open>maxBuilds \<ge> 0\<close> the truncation never panics: the out-of-range branch is reached exactly
  when \<open>maxBuilds\<close> is negative.
\<close>

theorem truncateBuilds_panics_iff:
  assumes "length builds < 2 ^ 63"
  shows "(maxBuilds <s 0 \<longrightarrow>
            truncateBuilds builds maxBuilds = Inl SliceBoundsOutOfRange \<and>
            \<not> (0 \<le> sint (go_len builds - maxBuilds) \<and>
               sint (go_len builds - maxBuilds) \<le> int (length builds)) \<and>
            (int (length builds) - sint maxBuilds < 2 ^ 63 \<longrightarrow>
               int (length builds) < sint (go_len builds - maxBuilds))) \<and>
         (0 \<le>s maxBuilds \<longrightarrow> (\<exists>kept. truncateBuilds builds maxBuilds = Inr kept)) \<and>
         ((\<exists>p. truncateBuilds builds maxBuilds = Inl p) \<longleftrightarrow> maxBuilds <s 0)"
proof -
  have neg: "truncateBuilds builds maxBuilds = Inl SliceBoundsOutOfRange \<and>
            \<not> (0 \<le> sint (go_len builds - maxBuilds) \<and>
               sint (go_len builds - maxBuilds) \<le> int (length builds)) \<and>
            (int (length builds) - sint maxBuilds < 2 ^ 63 \<longrightarrow>
               int (length builds) < sint (go_len builds - maxBuilds))" if "maxBuilds <s 0"
    using truncateBuilds_negative [OF that assms] by blast
  have pos: "\<exists>kept. truncateBuilds builds maxBuilds = Inr kept" if "0 \<le>s maxBuilds"
    using truncateBuilds_nonneg [OF that assms] by blast
  have "maxBuilds <s 0 \<or> 0 \<le>s maxBuilds" by (auto simp: word_sless_alt word_sle_eq)
  with neg pos show ?thesis by (auto simp: word_sless_alt word_sle_eq)
qed

theorem truncateBuilds_panics_iff_witness:
  "length [Build_lit 1 ''a''] < 2 ^ 63 \<and> (- 1 :: goint) <s 0 \<and>
   int (length [Build_lit 1 ''a'']) - sint (- 1 :: goint) < 2 ^ 63 \<and>
   truncateBuilds [Build_lit 1 ''a''] (- 1) = Inl SliceBoundsOutOfRange \<and>
   int (length [Build_lit 1 ''a'']) < sint (go_len [Build_lit 1 ''a''] - (- 1)) \<and>
   (0 :: goint) \<le>s 0 \<and> truncateBuilds [Build_lit 1 ''a''] 0 = Inr []"
proof -
  let ?bs = "[Build_lit 1 ''a'']"
  have h: "length ?bs < 2 ^ 63" by simp
  have n: "(- 1 :: goint) <s 0" by (simp add: word_sless_alt)
  have o: "int (length ?bs) - sint (- 1 :: goint) < 2 ^ 63" by simp
  have z: "(0 :: goint) \<le>s 0" by simp
  have e: "truncateBuilds ?bs 0 = Inr []"
    by (simp add: truncateBuilds_def go_slice_from_def go_len_def word_sless_alt)
  from truncateBuilds_panics_iff [OF h, of "- 1"] n o
  have "truncateBuilds ?bs (- 1) = Inl SliceBoundsOutOfRange"
    and "int (length ?bs) < sint (go_len ?bs - (- 1))" by blast+
  moreover from truncateBuilds_panics_iff [OF h, of 0] z
  have "\<exists>kept. truncateBuilds ?bs 0 = Inr kept" by blast
  ultimately show ?thesis using h n o z e by blast
qed

text \<open>
  C9 as stated fails where the subtraction overflows: for one build and
  \<open>maxBuilds = -2 ^ 63\<close> the start index is \<open>-(2 ^ 63 - 1)\<close>, which is not greater than
  the length (the slice expression panics all the same).
\<close>

theorem truncateBuilds_start_index_wraps:
  "(- 9223372036854775808 :: goint) <s 0 \<and>
   sint (go_len [Build_lit 1 ''a''] - (- 9223372036854775808)) = - 9223372036854775807 \<and>
   \<not> int (length [Build_lit 1 ''a''])
       < sint (go_len [Build_lit 1 ''a''] - (- 9223372036854775808)) \<and>
   truncateBuilds [Build_lit 1 ''a''] (- 9223372036854775808) = Inl SliceBoundsOutOfRange"
  by (simp add: truncateBuilds_def go_slice_from_def go_len_def word_sless_alt)

section \<open>Integer accessor\<close>

lemma of_char_digit_char: "0 \<le> d \<Longrightarrow> d < 10 \<Longrightarrow> (of_char (digit_char d) :: int) = 48 + d"
  by (simp add: digit_char_def)

lemma digit_val_digit_char: "0 \<le> d \<Longrightarrow> d < 10 \<Longrightarrow> digit_val (digit_char d) = Some d"
  by (simp add: digit_val_def of_char_digit_char)

lemma digit_char_not_sign:
  assumes "0 \<le> d" "d < 10"
  shows "digit_char d \<noteq> CHR ''-''" and "digit_char d \<noteq> CHR ''+''"
proof -
  have "(of_char (digit_char d) :: int) \<noteq> of_char CHR ''-''"
    "(of_char (digit_char d) :: int) \<noteq> of_char CHR ''+''"
    using assms by (simp_all add: of_char_digit_char)
  then show "digit_char d \<noteq> CHR ''-''" and "digit_char d \<noteq> CHR ''+''" by auto
qed

lemma parse_digits_append:
  "parse_digits (xs @ ys) n =
     (case parse_digits xs n of None \<Rightarrow> None | Some m \<Rightarrow> parse_digits ys m)"
  by (induction xs arbitrary: n) (auto split: option.splits)

lemma parse_dec_digits: "0 \<le> n \<Longrightarrow> parse_digits (dec_digits n) 0 = Some n"
proof (induction n rule: dec_digits.induct)
  case (1 n)
  show ?case
  proof (cases "n < 10")
    case True
    then show ?thesis
      using 1(2) by (subst dec_digits.simps) (simp add: digit_val_digit_char)
  next
    case False
    then have "parse_digits (dec_digits n) 0 =
                parse_digits [digit_char (n mod 10)] (n div 10)"
      using 1 by (subst dec_digits.simps) (simp add: parse_digits_append)
    then show ?thesis by (simp add: digit_val_digit_char)
  qed
qed

lemma dec_digits_hd: "0 \<le> n \<Longrightarrow> \<exists>d cs. 0 \<le> d \<and> d < 10 \<and> dec_digits n = digit_char d # cs"
proof (induction n rule: dec_digits.induct)
  case (1 n)
  show ?case
  proof (cases "n < 10")
    case True
    then show ?thesis using 1(2) by (subst dec_digits.simps) auto
  next
    case False
    with 1 obtain d cs where "0 \<le> d" "d < 10" "dec_digits (n div 10) = digit_char d # cs"
      by fastforce
    with False show ?thesis by (subst dec_digits.simps) auto
  qed
qed

lemma ParseInt_decimal:
  assumes "- (2 ^ 63) \<le> k" and "k < 2 ^ 63"
  shows "ParseInt (decimal k) = Some (word_of_int k)"
proof (cases "k < 0")
  case True
  then have nn: "0 \<le> - k" by simp
  obtain d cs where d: "0 \<le> d" "d < 10" "dec_digits (- k) = digit_char d # cs"
    using dec_digits_hd [OF nn] by blast
  have "\<not> (2 ^ 63 < - k)" using assms(1) by simp
  moreover have "parse_digits (digit_char d # cs) 0 = Some (- k)"
    using parse_dec_digits [OF nn] d by simp
  ultimately show ?thesis
    using True d by (simp add: ParseInt_def decimal_def del: parse_digits.simps)
next
  case False
  then have nn: "0 \<le> k" by simp
  obtain d cs where d: "0 \<le> d" "d < 10" "dec_digits k = digit_char d # cs"
    using dec_digits_hd [OF nn] by blast
  have "\<not> (2 ^ 63 \<le> k)" using assms(2) by simp
  moreover have "parse_digits (digit_char d # cs) 0 = Some k"
    using parse_dec_digits [OF nn] d by simp
  ultimately show ?thesis
    using False d digit_char_not_sign [OF d(1,2)]
    by (simp add: ParseInt_def decimal_def del: parse_digits.simps)
qed

lemma trunc_rat_of_int: "trunc_rat (of_int n) = n"
  by (simp add: trunc_rat_def)

text \<open>
  C8, as amended. For a whole number \<open>n\<close> with \<open>|n| \<le> 2 ^ 53\<close>, \<open>GetInt64\<close> returns
  \<open>(n, true)\<close> for both encodings: the \<open>float64\<close> nearest to \<open>n\<close> and the \<open>json.Number\<close>
  holding the decimal literal of \<open>n\<close>.
\<close>

theorem GetInt64_encodings_agree:
  assumes "\<bar>n\<bar> \<le> 2 ^ 53"
    and "map_of obj1 key = Some (JFloat (float64_literal n))"
    and "map_of obj2 key = Some (JNumber (Number_literal n))"
  shows "GetInt64 cv obj1 key = (word_of_int n, True) \<and>
         GetInt64 cv obj2 key = (word_of_int n, True) \<and>
         sint (word_of_int n :: int64) = n"
proof -
  from assms(1) have r: "- (2 ^ 63) \<le> n" "n < 2 ^ 63" by simp_all
  have "GetInt64 cv obj1 key = (word_of_int n, True)"
    using r by (simp add: GetInt64_def assms(2) float64_literal_def round53_of_int [OF assms(1)]
        trunc_rat_of_int)
  moreover have "GetInt64 cv obj2 key = (word_of_int n, True)"
    by (simp add: GetInt64_def assms(3) Number_literal_def ParseInt_decimal [OF r])
  moreover have "sint (word_of_int n :: int64) = n" using r by (rule sint64_eq)
  ultimately show ?thesis by blast
qed

theorem GetInt64_encodings_agree_witness:
  "\<bar>- 1500 :: int\<bar> \<le> 2 ^ 53 \<and>
   GetInt64 conv_amd64 [(''timestamp'', JFloat (float64_literal (- 1500)))] ''timestamp''
     = (- 1500, True) \<and>
   GetInt64 conv_amd64 [(''timestamp'', JNumber (Number_literal (- 1500)))] ''timestamp''
     = (- 1500, True)"
proof -
  have h: "\<bar>- 1500 :: int\<bar> \<le> 2 ^ 53" by simp
  have m1: "map_of [(''timestamp'', JFloat (float64_literal (- 1500)))] ''timestamp''
              = Some (JFloat (float64_literal (- 1500)))" by simp
  have m2: "map_of [(''timestamp'', JNumber (Number_literal (- 1500)))] ''timestamp''
              = Some (JNumber (Number_literal (- 1500)))" by simp
  from GetInt64_encodings_agree [OF h m1 m2, of conv_amd64] h show ?thesis by simp
qed

text \<open>
  C8 as stated, for every whole number, fails beyond \<open>2 ^ 53\<close>: the \<open>float64\<close>
  nearest to \<open>2 ^ 53 + 1\<close> is \<open>2 ^ 53\<close>, so the two encodings of \<open>9007199254740993\<close> decode
  to different values.
\<close>

theorem GetInt64_encodings_differ:
  "GetInt64 conv_amd64 [(''number'', JFloat (float64_literal 9007199254740993))] ''number''
     = (9007199254740992, True) \<and>
   GetInt64 conv_amd64 [(''number'', JNumber (Number_literal 9007199254740993))] ''number''
     = (9007199254740993, True)"
  by code_simp
section \<open>Rendering\<close>

lemma pad_loop_result:
  "length builds < 2 ^ 63 \<Longrightarrow>
   pad_loop builds count =
     (replicate (nat (sint count - int (length builds))) (Pad (sparks ! 0)),
      if go_len builds <s count then go_len builds else count)"
proof (induction builds count rule: pad_loop.induct)
  case (1 builds count)
  note len = sint_go_len [OF "1.prems"]
  show ?case
  proof (cases "go_len builds <s count")
    case False
    then have "sint count - int (length builds) \<le> 0" by (simp add: word_sless_alt len)
    with False show ?thesis by (subst pad_loop.simps) simp
  next
    case True
    then have lt: "sint (go_len builds) < sint count" by (simp add: word_sless_alt)
    have p: "sint (count - 1) = sint count - 1" using lt by (rule sint_pred)
    have c: "(if go_len builds <s count - 1 then go_len builds else count - 1) = go_len builds"
    proof (cases "go_len builds <s count - 1")
      case True then show ?thesis by simp
    next
      case False
      then have "sint (count - 1) = sint (go_len builds)"
        using lt p by (simp add: word_sless_alt)
      then have "count - 1 = go_len builds" by (rule signed_word_eqI)
      with False show ?thesis by simp
    qed
    have r: "replicate (nat (sint count - int (length builds))) (Pad (sparks ! 0)) =
             Pad (sparks ! 0) # replicate (nat (sint (count - 1) - int (length builds))) (Pad (sparks ! 0))"
    proof -
      have "nat (sint count - int (length builds)) = Suc (nat (sint (count - 1) - int (length builds)))"
        using lt p len by simp
      then show ?thesis by simp
    qed
    show ?thesis
      using True by (subst pad_loop.simps) (simp add: "1.IH" [OF True "1.prems"] c r)
  qed
qed

lemma max_loop_spec:
  "length builds < 2 ^ 63 \<Longrightarrow> 0 \<le> sint i \<Longrightarrow>
   max_loop builds i mx =
     Inr (foldl smax mx (map Build_Failures (drop (nat (sint i)) builds)))"
proof (induction builds i mx rule: max_loop.induct)
  case (1 builds i mx)
  note len = sint_go_len [OF "1.prems"(1)]
  show ?case
  proof (cases "i <s go_len builds")
    case False
    then have "length builds \<le> nat (sint i)"
      using "1.prems"(2) by (simp add: word_sless_alt len)
    with False show ?thesis by (subst max_loop.simps) simp
  next
    case True
    then have lt: "sint i < sint (go_len builds)" by (simp add: word_sless_alt)
    then have k: "nat (sint i) < length builds" using "1.prems"(2) len by simp
    have ix: "go_index builds i = Inr (builds ! nat (sint i))"
      using k "1.prems"(2) by (simp add: go_index_def)
    have s: "sint (i + 1) = sint i + 1" using lt by (rule sint_succ)
    then have n: "nat (sint (i + 1)) = Suc (nat (sint i))" using "1.prems"(2) by simp
    have nn: "0 \<le> sint (i + 1)" using s "1.prems"(2) by simp
    have d: "drop (nat (sint i)) builds = builds ! nat (sint i) # drop (Suc (nat (sint i))) builds"
      using k by (simp add: Cons_nth_drop_Suc)
    let ?f = "Build_Failures (builds ! nat (sint i))"
    have e: "(if mx <s ?f then ?f else mx) = smax mx ?f" by (simp only: smax_def)
    have "max_loop builds i mx = max_loop builds (i + 1) (if mx <s ?f then ?f else mx)"
      using True by (subst max_loop.simps) (simp add: ix)
    also have "\<dots> = Inr (foldl smax (if mx <s ?f then ?f else mx)
                         (map Build_Failures (drop (nat (sint (i + 1))) builds)))"
      by (rule "1.IH" [OF True ix "1.prems"(1) nn])
    finally have "max_loop builds i mx =
        Inr (foldl smax (smax mx ?f) (map Build_Failures (drop (Suc (nat (sint i))) builds)))"
      unfolding e n .
    then show ?thesis by (simp add: d)
  qed
qed


lemma sint_foldl_smax:
  "sint (foldl smax mx fs) = Max (insert (sint mx) (sint ` set fs))"
proof (induction fs arbitrary: mx)
  case Nil
  show ?case by simp
next
  case (Cons f fs)
  have "sint (smax mx f) = max (sint mx) (sint f)"
    by (simp add: smax_def word_sless_alt max_def)
  then have "Max (insert (sint (smax mx f)) (sint ` set fs)) =
             Max (insert (sint mx) (insert (sint f) (sint ` set fs)))"
    by (cases "fs = []") (simp_all add: max.assoc)
  then show ?case by (simp add: Cons.IH)
qed


lemma RenderHistory_start_window:
  assumes "length builds < 2 ^ 63" and "int (length builds) - sint count < 2 ^ 63"
  shows "0 \<le> sint (RenderHistory_start builds count)"
    and "drop (nat (sint (RenderHistory_start builds count))) builds = window builds count"
proof -
  note len = sint_go_len [OF assms(1)]
  have "0 \<le> sint (RenderHistory_start builds count) \<and>
        drop (nat (sint (RenderHistory_start builds count))) builds = window builds count"
  proof (cases "go_len builds <s count")
    case True
    then have "int (length builds) < sint count" by (simp add: word_sless_alt len)
    then have "window builds count = builds" by (simp add: window_def)
    moreover have "RenderHistory_start builds count = 0"
      using True by (simp add: RenderHistory_start_def pad_loop_result [OF assms(1)])
    ultimately show ?thesis by simp
  next
    case False
    then have le: "sint count \<le> int (length builds)" by (simp add: word_sless_alt len)
    have st: "RenderHistory_start builds count = go_len builds - count"
      using False by (simp add: RenderHistory_start_def pad_loop_result [OF assms(1)])
    have s: "sint (go_len builds - count) = int (length builds) - sint count"
      using le assms(2) by (simp add: sint_word_ariths len signed_take_bit_int_eq_self)
    have "drop (nat (sint (go_len builds - count))) builds = window builds count"
    proof (cases "0 \<le> sint count")
      case True
      then have "nat (sint (go_len builds - count)) = length builds - nat (sint count)"
        using s by linarith
      then show ?thesis by (simp add: window_def)
    next
      case False
      then have "length builds \<le> nat (sint (go_len builds - count))" using s by linarith
      moreover have "nat (sint count) = 0" using False by simp
      ultimately show ?thesis by (simp add: window_def)
    qed
    with s le show ?thesis by (simp add: st)
  qed
  then show "0 \<le> sint (RenderHistory_start builds count)"
    and "drop (nat (sint (RenderHistory_start builds count))) builds = window builds count"
    by simp_all
qed

lemma RenderHistory_max_start:
  "RenderHistory_max builds count = max_loop builds (RenderHistory_start builds count) 0"
  by (cases "pad_loop builds count") (simp add: RenderHistory_max_def RenderHistory_start_def)

lemma RenderHistory_max_window:
  assumes "length builds < 2 ^ 63" and "int (length builds) - sint count < 2 ^ 63"
  shows "RenderHistory_max builds count =
           Inr (foldl smax 0 (map Build_Failures (window builds count)))"
  using max_loop_spec [OF assms(1) RenderHistory_start_window(1) [OF assms], of 0]
  by (simp add: RenderHistory_max_start RenderHistory_start_window(2) [OF assms])

lemma RenderHistory_max_largest:
  assumes "length builds < 2 ^ 63" and "int (length builds) - sint count < 2 ^ 63"
  shows "\<exists>mx. RenderHistory_max builds count = Inr mx \<and>
              sint mx = largest_failures (window builds count)"
  by (simp add: RenderHistory_max_window [OF assms] sint_foldl_smax largest_failures_def image_image)

lemma RenderHistory_unfold:
  "RenderHistory cv job count =
     (case RenderHistory_max (Job_Builds job) count of Inl p \<Rightarrow> Inl p
      | Inr mx \<Rightarrow>
         (case render_loop cv (Job_Builds job) mx (RenderHistory_start (Job_Builds job) count) of
            Inl p \<Rightarrow> Inl p
          | Inr cells \<Rightarrow> Inr (fst (pad_loop (Job_Builds job) count) @ cells)))"
  by (cases "pad_loop (Job_Builds job) count")
    (simp add: RenderHistory_def RenderHistory_max_def RenderHistory_start_def Let_def
       split: sum.splits)

lemma round53_1: "round53 1 = 1"
  using round53_of_int [of 1] by simp

lemma round53_6: "round53 6 = 6"
  using round53_of_int [of 6] by simp

lemma round53_0: "round53 0 = 0"
  by (simp add: round53_def)

lemma round53_ge_1: "1 \<le> n \<Longrightarrow> 1 \<le> round53 (of_int n)"
  using round53_mono [of 1 "of_int n"] by (simp add: round53_1)

lemma quant_bounds:
  assumes "1 \<le> f" and "f \<le> mx"
  shows "0 \<le> quant mx f" and "quant mx f \<le> 6"
proof -
  let ?F = "round53 (of_int f)" and ?M = "round53 (of_int mx)"
  have F1: "1 \<le> ?F" using assms(1) by (rule round53_ge_1)
  have FM: "?F \<le> ?M" using assms(2) by (intro round53_mono) simp
  then have M: "0 < ?M" using F1 by simp
  have "0 \<le> ?F / ?M" using F1 M by simp
  then have p0: "0 \<le> round53 (?F / ?M)" by (rule round53_nonneg)
  have "?F / ?M \<le> 1" using FM M by simp
  then have p1: "round53 (?F / ?M) \<le> 1" using round53_mono [of "?F / ?M" 1] by (simp add: round53_1)
  from p0 have "0 \<le> round53 (?F / ?M) * 6" by simp
  then show "0 \<le> quant mx f" unfolding quant_def by (rule round53_nonneg)
  from p1 have "round53 (?F / ?M) * 6 \<le> 6" by simp
  then show "quant mx f \<le> 6"
    unfolding quant_def using round53_mono [of "round53 (?F / ?M) * 6" 6] by (simp add: round53_6)
qed

lemma quant_mono:
  assumes "1 \<le> f" and "f \<le> f'" and "f' \<le> mx"
  shows "quant mx f \<le> quant mx f'"
proof -
  let ?M = "round53 (of_int mx)"
  have "1 \<le> mx" using assms by simp
  then have "1 \<le> ?M" by (rule round53_ge_1)
  then have M: "0 < ?M" by simp
  have "round53 (of_int f) \<le> round53 (of_int f')" using assms(2) by (intro round53_mono) simp
  then have "round53 (of_int f) / ?M \<le> round53 (of_int f') / ?M"
    using M by (simp add: divide_right_mono)
  then have "round53 (round53 (of_int f) / ?M) \<le> round53 (round53 (of_int f') / ?M)"
    by (rule round53_mono)
  then have "round53 (round53 (of_int f) / ?M) * 6 \<le> round53 (round53 (of_int f') / ?M) * 6"
    by simp
  then show ?thesis unfolding quant_def by (rule round53_mono)
qed

lemma spark_index_quant:
  assumes "1 \<le> sint f" and "sint f \<le> sint mx"
  shows "sint (spark_index cv mx f) = 1 + \<lfloor>quant (sint mx) (sint f)\<rfloor>"
proof -
  let ?F = "round53 (of_int (sint f))" and ?M = "round53 (of_int (sint mx))"
  let ?t = "quant (sint mx) (sint f)"
  have "1 \<le> sint mx" using assms by simp
  then have "1 \<le> ?M" by (rule round53_ge_1)
  then have M: "?M \<noteq> 0" by simp
  note b = quant_bounds [OF assms]
  have fl: "0 \<le> \<lfloor>?t\<rfloor>" "\<lfloor>?t\<rfloor> \<le> 6" using b by (simp_all add: floor_le_iff le_floor_iff)
  have six: "float64_of_int64 (go_len sparks - 2) = Finite 6"
    by (simp add: float64_of_int64_def go_len_def sparks_def round53_6)
  have tr: "trunc_rat ?t = \<lfloor>?t\<rfloor>" using b(1) by (simp add: trunc_rat_def)
  have F: "float64_of_int64 f = Finite ?F" and Mx: "float64_of_int64 mx = Finite ?M"
    by (simp_all only: float64_of_int64_def)
  have dv: "float64_div (Finite ?F) (Finite ?M) = Finite (round53 (?F / ?M))"
    using M by (simp only: float64_div.simps if_False)
  have ml: "float64_mul (Finite (round53 (?F / ?M))) (Finite 6) = Finite ?t"
    by (simp only: float64_mul.simps quant_def)
  have "spark_index cv mx f = 1 + int64_of_float64 cv (Finite ?t)"
    by (simp only: spark_index_def Let_def F Mx six dv ml)
  also have "\<dots> = 1 + word_of_int \<lfloor>?t\<rfloor>"
    using fl by (simp add: tr)
  also have "\<dots> = word_of_int (1 + \<lfloor>?t\<rfloor>)" by simp
  finally have "sint (spark_index cv mx f) = sint (word_of_int (1 + \<lfloor>?t\<rfloor>) :: int64)" by simp
  also have "\<dots> = 1 + \<lfloor>?t\<rfloor>" using fl by (intro sint64_eq) auto
  finally show ?thesis .
qed

lemma spark_index_range:
  assumes "1 \<le> sint f" and "sint f \<le> sint mx"
  shows "1 \<le> sint (spark_index cv mx f)" and "sint (spark_index cv mx f) \<le> 7"
  using quant_bounds [OF assms] by (simp_all add: spark_index_quant [OF assms] floor_le_iff le_floor_iff)

lemma spark_index_mono:
  assumes "1 \<le> sint f" and "sint f \<le> sint f'" and "sint f' \<le> sint mx"
  shows "sint (spark_index cv mx f) \<le> sint (spark_index cv mx f')"
proof -
  have a: "sint f \<le> sint mx" "1 \<le> sint f'" using assms by simp_all
  show ?thesis
    using quant_mono [OF assms]
    by (simp add: spark_index_quant [OF assms(1) a(1)] spark_index_quant [OF a(2) assms(3)] floor_mono)
qed

text \<open>
  Up to \<open>max = 2 ^ 40\<close> the index computed in \<open>float64\<close> is the real-valued
  \<open>1 + floor ((f / max) * 6)\<close>: the two roundings move the product by less than
  \<open>2 ^ -49\<close>, while it is an integer or at least \<open>1 / max\<close> away from one.
\<close>

lemma quant_div6:
  "quant 6 1 = 1" "quant 6 2 = 2" "quant 6 3 = 3" "quant 6 4 = 4" "quant 6 5 = 5" "quant 6 6 = 6"
  by code_simp+


lemma abs_le_D: "\<bar>a - b\<bar> \<le> c \<Longrightarrow> b - c \<le> a \<and> a \<le> b + (c::rat)"
  by (simp add: abs_le_iff)

lemma quant_exact:
  assumes "1 \<le> f" and "f \<le> mx" and "mx \<le> 2 ^ 40"
  shows "\<lfloor>quant mx f\<rfloor> = (6 * f) div mx"
proof -
  define q :: rat where "q = of_int f / of_int mx"
  define k where "k = (6 * f) div mx"
  define r where "r = (6 * f) mod mx"
  define u :: rat where "u = 1 / of_int mx"
  have mx: "0 < mx" using assms by simp
  have mxr: "(0::rat) < of_int mx" using mx by simp
  have F: "round53 (of_int f) = of_int f" and M: "round53 (of_int mx) = of_int mx"
    using assms by (simp_all add: round53_of_int)
  have Q: "quant mx f = round53 (round53 q * 6)" by (simp only: quant_def F M q_def)
  have dm: "6 * f = k * mx + r" by (simp add: k_def r_def)
  have r: "0 \<le> r" "r < mx" using mx by (simp_all add: r_def)
  have q6: "6 * q = of_int k + of_int r * u"
  proof -
    have "(of_int (6 * f) :: rat) = of_int (k * mx + r)" by (simp only: dm)
    then have "(6 * of_int f :: rat) = of_int k * of_int mx + of_int r"
      by (simp only: of_int_mult of_int_add of_int_numeral)
    then have "(6 * of_int f :: rat) / of_int mx = (of_int k * of_int mx + of_int r) / of_int mx"
      by (rule arg_cong)
    then show ?thesis using mxr by (simp add: q_def u_def add_divide_distrib)
  qed
  show ?thesis
  proof (cases "r = 0")
    case True
    have k1: "1 \<le> k"
    proof -
      from dm True have "6 * f = k * mx" by simp
      moreover have "0 < 6 * f" using assms(1) by simp
      ultimately have "0 < k * mx" by simp
      then have "0 < k" using mx by (simp add: zero_less_mult_iff)
      then show ?thesis by simp
    qed
    have k6: "k \<le> 6"
    proof -
      have "6 * f \<le> 6 * mx" using assms(2) by simp
      then have "k \<le> (6 * mx) div mx" unfolding k_def by (rule zdiv_mono1) (rule mx)
      then show ?thesis using mx by simp
    qed
    have s6: "6 * q = of_int k" using q6 True by simp
    have "q = (6 * q) / 6" by simp
    also have "\<dots> = of_int k / 6" by (simp only: s6)
    finally have qk: "q = of_int k / 6" .
    have K: "round53 (of_int k) = of_int k"
      using k1 k6 by (intro round53_of_int) simp
    have "quant 6 k = round53 (round53 (of_int k / 6) * 6)"
      by (simp only: quant_def K of_int_numeral round53_6)
    moreover have "quant mx f = round53 (round53 (of_int k / 6) * 6)"
      by (simp only: Q qk)
    ultimately have "quant mx f = quant 6 k" by simp
    moreover have "quant 6 k = of_int k"
    proof -
      from k1 k6 consider "k = 1" | "k = 2" | "k = 3" | "k = 4" | "k = 5" | "k = 6"
        by linarith
      then show ?thesis by cases (simp_all only: quant_div6 of_int_numeral of_int_1)
    qed
    ultimately show ?thesis by (simp add: k_def)
  next
    case False
    then have r1: "1 \<le> r" "r \<le> mx - 1" using r by simp_all
    have upos: "0 < u" using mxr by (simp add: u_def)
    have small: "1 / 2 ^ 40 \<le> u"
    proof -
      have "(of_int mx :: rat) \<le> of_int (2 ^ 40)" using assms(3) by (simp only: of_int_le_iff)
      then have "(of_int mx :: rat) \<le> 2 ^ 40" by simp
      then show ?thesis unfolding u_def using mxr by (intro divide_left_mono) simp_all
    qed
    have mu: "of_int mx * u = 1" using mxr by (simp add: u_def)
    have lo: "of_int k + u \<le> 6 * q"
    proof -
      have "(1::rat) \<le> of_int r" using r1(1) by simp
      then have "1 * u \<le> of_int r * u" using upos by (intro mult_right_mono) simp_all
      then show ?thesis unfolding q6 by simp
    qed
    have hi: "6 * q \<le> of_int k + 1 - u"
    proof -
      have "(of_int r :: rat) \<le> of_int (mx - 1)" using r1(2) by (simp only: of_int_le_iff)
      then have "(of_int r :: rat) \<le> of_int mx - 1" by simp
      then have "of_int r * u \<le> (of_int mx - 1) * u"
        using upos by (intro mult_right_mono) simp_all
      also have "\<dots> = 1 - u" using mu by (simp add: algebra_simps)
      finally show ?thesis unfolding q6 by simp
    qed
    have k0: "(0::rat) \<le> of_int k"
      using mx assms(1) by (simp add: k_def pos_imp_zdiv_nonneg_iff)
    have qpos: "0 < q" using assms(1) mx by (simp add: q_def)
    have q1: "q \<le> 1" using assms(2) mx by (simp add: q_def)
    define p where "p = round53 q"
    have pe: "q - 1 / 2 ^ 53 \<le> p \<and> p \<le> q + 1 / 2 ^ 53"
    proof -
      have "\<bar>p - q\<bar> \<le> q / 2 ^ 53" unfolding p_def using qpos by (rule round53_error)
      also have "\<dots> \<le> 1 / 2 ^ 53" using q1 by (intro divide_right_mono) simp_all
      finally show ?thesis by (rule abs_le_D)
    qed
    have c1: "(6::rat) / 2 ^ 53 < 1 / 2 ^ 40" by simp
    have ppos: "0 < p * 6" using pe lo k0 small c1 by linarith
    have p7: "p * 6 \<le> 7" using pe q1 by simp
    define t where "t = round53 (p * 6)"
    have te: "p * 6 - 7 / 2 ^ 53 \<le> t \<and> t \<le> p * 6 + 7 / 2 ^ 53"
    proof -
      have "\<bar>t - p * 6\<bar> \<le> (p * 6) / 2 ^ 53" unfolding t_def using ppos by (rule round53_error)
      also have "\<dots> \<le> 7 / 2 ^ 53" using p7 by (intro divide_right_mono) simp_all
      finally show ?thesis by (rule abs_le_D)
    qed
    have c2: "(13::rat) / 2 ^ 53 < 1 / 2 ^ 40" by simp
    have "of_int k < t" using te pe lo small c2 by linarith
    moreover have "t < of_int k + 1" using te pe hi small c2 by linarith
    ultimately have "\<lfloor>t\<rfloor> = k" by (intro floor_unique) simp_all
    then show ?thesis by (simp only: Q t_def p_def k_def)
  qed
qed


lemma spark_index_exact:
  assumes "1 \<le> sint f" and "sint f \<le> sint mx" and "sint mx \<le> 2 ^ 40"
  shows "sint (spark_index cv mx f) = 1 + (6 * sint f) div sint mx"
    and "sint (spark_index cv mx f) = 1 + \<lfloor>(of_int (sint f) / of_int (sint mx) :: rat) * 6\<rfloor>"
proof -
  show e: "sint (spark_index cv mx f) = 1 + (6 * sint f) div sint mx"
    by (simp only: spark_index_quant [OF assms(1,2)] quant_exact [OF assms])
  have m: "(of_int a / of_int b :: rat) * 6 = of_int (6 * a) / of_int b" for a b :: int
    by simp
  have "\<lfloor>(of_int (sint f) / of_int (sint mx) :: rat) * 6\<rfloor>
          = \<lfloor>(of_int (6 * sint f) / of_int (sint mx) :: rat)\<rfloor>"
    by (simp only: m)
  also have "\<dots> = (6 * sint f) div sint mx" by (rule floor_divide_of_int_eq)
  finally show "sint (spark_index cv mx f) =
      1 + \<lfloor>(of_int (sint f) / of_int (sint mx) :: rat) * 6\<rfloor>"
    by (simp only: e)
qed

lemma go_index_sparks:
  assumes "0 \<le> sint i" and "sint i \<le> 7"
  shows "go_index sparks i = Inr (sparks ! nat (sint i))"
  using assms by (simp add: go_index_def sparks_def)

lemma render_build_default:
  assumes "Build_Complete b" and "1 \<le> sint (Build_Failures b)"
    and "sint (Build_Failures b) \<le> sint mx"
  shows "render_build cv mx b =
           Inr (Link (Build_Url b) (decimal (sint (Build_Failures b)) @ '' failures'')
                  (sparks ! nat (sint (spark_index cv mx (Build_Failures b)))))"
proof -
  have "Build_Failures b \<noteq> 0" "Build_Failures b \<noteq> - 1" using assms(2) by auto
  moreover have "go_index sparks (spark_index cv mx (Build_Failures b)) =
      Inr (sparks ! nat (sint (spark_index cv mx (Build_Failures b))))"
    using spark_index_range [OF assms(2,3), of cv] by (intro go_index_sparks) simp_all
  ultimately show ?thesis using assms(1) by (simp add: render_build_def Let_def)
qed

text \<open>
  C1, as amended. The value \<open>max\<close> that \<open>RenderHistory\<close> uses for quantization is the
  largest \<open>failures\<close> among all the builds of the trailing window, complete or not (and 0
  when none is positive). It holds for every build list and every \<open>count\<close> for which
  \<open>len(job.Builds) - count\<close> does not overflow.
\<close>

theorem RenderHistory_max_all_builds:
  assumes "length builds < 2 ^ 63" and "int (length builds) - sint count < 2 ^ 63"
  shows "\<exists>mx. RenderHistory_max builds count = Inr mx \<and>
              sint mx = largest_failures (window builds count)"
  using assms by (rule RenderHistory_max_largest)

theorem RenderHistory_max_all_builds_witness:
  "length [\<lparr>Build_Id = 1, Build_Url = ''a/'', Build_Timestamp = Unix 0,
            Build_Failures = 5, Build_Complete = False\<rparr>,
           \<lparr>Build_Id = 2, Build_Url = ''b/'', Build_Timestamp = Unix 0,
            Build_Failures = 2, Build_Complete = True\<rparr>] < 2 ^ 63 \<and>
   int (length [\<lparr>Build_Id = 1, Build_Url = ''a/'', Build_Timestamp = Unix 0,
            Build_Failures = 5, Build_Complete = False\<rparr>,
           \<lparr>Build_Id = 2, Build_Url = ''b/'', Build_Timestamp = Unix 0,
            Build_Failures = 2, Build_Complete = True\<rparr>]) - sint (2 :: goint) < 2 ^ 63 \<and>
   RenderHistory_max
          [\<lparr>Build_Id = 1, Build_Url = ''a/'', Build_Timestamp = Unix 0,
            Build_Failures = 5, Build_Complete = False\<rparr>,
           \<lparr>Build_Id = 2, Build_Url = ''b/'', Build_Timestamp = Unix 0,
            Build_Failures = 2, Build_Complete = True\<rparr>] 2 = Inr 5 \<and>
   largest_failures (window
          [\<lparr>Build_Id = 1, Build_Url = ''a/'', Build_Timestamp = Unix 0,
            Build_Failures = 5, Build_Complete = False\<rparr>,
           \<lparr>Build_Id = 2, Build_Url = ''b/'', Build_Timestamp = Unix 0,
            Build_Failures = 2, Build_Complete = True\<rparr>] 2) = 5"
proof -
  let ?bs = "[\<lparr>Build_Id = 1, Build_Url = ''a/'', Build_Timestamp = Unix 0,
            Build_Failures = 5, Build_Complete = False\<rparr>,
           \<lparr>Build_Id = 2, Build_Url = ''b/'', Build_Timestamp = Unix 0,
            Build_Failures = 2, Build_Complete = True\<rparr>]"
  have h1: "length ?bs < 2 ^ 63" by simp
  have h2: "int (length ?bs) - sint (2 :: goint) < 2 ^ 63" by simp
  have e: "RenderHistory_max ?bs 2 = Inr 5" by code_simp
  from RenderHistory_max_all_builds [OF h1 h2] obtain mx
    where "RenderHistory_max ?bs 2 = Inr mx" and "sint mx = largest_failures (window ?bs 2)"
    by blast
  with e have "largest_failures (window ?bs 2) = 5" by simp
  with h1 h2 e show ?thesis by blast
qed

text \<open>
  C1 as stated fails: a build in progress takes part in the scan. With a build in progress
  that carries 5 failures and a complete build with 2, \<open>max\<close> is 5, not 2, and the
  complete build gets glyph index 3 instead of 7.
\<close>

theorem RenderHistory_max_counts_builds_in_progress:
  "RenderHistory_max
     [\<lparr>Build_Id = 1, Build_Url = ''a/'', Build_Timestamp = Unix 0,
       Build_Failures = 5, Build_Complete = False\<rparr>,
      \<lparr>Build_Id = 2, Build_Url = ''b/'', Build_Timestamp = Unix 0,
       Build_Failures = 2, Build_Complete = True\<rparr>] 2 = Inr 5 \<and>
   largest_failures (filter Build_Complete (window
     [\<lparr>Build_Id = 1, Build_Url = ''a/'', Build_Timestamp = Unix 0,
       Build_Failures = 5, Build_Complete = False\<rparr>,
      \<lparr>Build_Id = 2, Build_Url = ''b/'', Build_Timestamp = Unix 0,
       Build_Failures = 2, Build_Complete = True\<rparr>] 2)) = 2 \<and>
   RenderHistory conv_amd64 \<lparr>Job_Name = ''j'', Job_Url = ''j/'', Job_Builds =
     [\<lparr>Build_Id = 1, Build_Url = ''a/'', Build_Timestamp = Unix 0,
       Build_Failures = 5, Build_Complete = False\<rparr>,
      \<lparr>Build_Id = 2, Build_Url = ''b/'', Build_Timestamp = Unix 0,
       Build_Failures = 2, Build_Complete = True\<rparr>]\<rparr> 2 =
    Inr [Link ''a/'' ''building'' 66, Link ''b/'' ''2 failures'' (sparks ! 3)]"
proof -
  let ?bs = "[\<lparr>Build_Id = 1, Build_Url = ''a/'', Build_Timestamp = Unix 0,
       Build_Failures = 5, Build_Complete = False\<rparr>,
      \<lparr>Build_Id = 2, Build_Url = ''b/'', Build_Timestamp = Unix 0,
       Build_Failures = 2, Build_Complete = True\<rparr>]"
  have "RenderHistory_max ?bs 2 = Inr 5" by code_simp
  moreover have "largest_failures (filter Build_Complete (window ?bs 2)) = 2"
    by (simp add: largest_failures_def window_def)
  moreover have "RenderHistory conv_amd64
      \<lparr>Job_Name = ''j'', Job_Url = ''j/'', Job_Builds = ?bs\<rparr> 2 =
    Inr [Link ''a/'' ''building'' 66, Link ''b/'' ''2 failures'' (sparks ! 3)]"
    by code_simp
  ultimately show ?thesis by blast
qed

text \<open>
  C4. For a complete build, \<open>failures = 0\<close> gives glyph 0 and \<open>failures = -1\<close> gives glyph 7;
  for \<open>1 \<le> f \<le> max\<close> the index \<open>1 + int(percentile * 6)\<close> that the code computes in
  \<open>float64\<close> lies between 1 and 7, selects the glyph of the build, and does not decrease
  when \<open>f\<close> grows with \<open>max\<close> fixed; up to \<open>max = 2 ^ 40\<close> it is the real-valued
  \<open>1 + floor ((f / max) * 6)\<close>.
\<close>

theorem render_build_glyph:
  assumes "Build_Complete b"
  shows "(Build_Failures b = 0 \<longrightarrow>
            render_build cv mx b = Inr (Link (Build_Url b) ''Passed'' (sparks ! 0))) \<and>
         (Build_Failures b = - 1 \<longrightarrow>
            render_build cv mx b = Inr (Link (Build_Url b) ''Failed'' (sparks ! 7))) \<and>
         (1 \<le> sint (Build_Failures b) \<and> sint (Build_Failures b) \<le> sint mx \<longrightarrow>
            1 \<le> sint (spark_index cv mx (Build_Failures b)) \<and>
            sint (spark_index cv mx (Build_Failures b)) \<le> 7 \<and>
            render_build cv mx b =
              Inr (Link (Build_Url b) (decimal (sint (Build_Failures b)) @ '' failures'')
                     (sparks ! nat (sint (spark_index cv mx (Build_Failures b))))) \<and>
            (\<forall>f' :: int64. sint (Build_Failures b) \<le> sint f' \<and> sint f' \<le> sint mx \<longrightarrow>
                  sint (spark_index cv mx (Build_Failures b)) \<le> sint (spark_index cv mx f')) \<and>
            (sint mx \<le> 2 ^ 40 \<longrightarrow>
               sint (spark_index cv mx (Build_Failures b)) =
                 1 + \<lfloor>(of_int (sint (Build_Failures b)) / of_int (sint mx) :: rat) * 6\<rfloor>))"
proof (intro conjI impI allI)
  assume "Build_Failures b = 0"
  then show "render_build cv mx b = Inr (Link (Build_Url b) ''Passed'' (sparks ! 0))"
    using assms by (simp add: render_build_def)
next
  assume "Build_Failures b = - 1"
  then show "render_build cv mx b = Inr (Link (Build_Url b) ''Failed'' (sparks ! 7))"
    using assms by (simp add: render_build_def sparks_def)
next
  assume a: "1 \<le> sint (Build_Failures b) \<and> sint (Build_Failures b) \<le> sint mx"
  then show "1 \<le> sint (spark_index cv mx (Build_Failures b))"
    and "sint (spark_index cv mx (Build_Failures b)) \<le> 7"
    by (simp_all add: spark_index_range)
  from a show "render_build cv mx b =
              Inr (Link (Build_Url b) (decimal (sint (Build_Failures b)) @ '' failures'')
                     (sparks ! nat (sint (spark_index cv mx (Build_Failures b)))))"
    using assms by (simp add: render_build_default)
  fix f' :: int64
  assume "sint (Build_Failures b) \<le> sint f' \<and> sint f' \<le> sint mx"
  with a show "sint (spark_index cv mx (Build_Failures b)) \<le> sint (spark_index cv mx f')"
    by (simp add: spark_index_mono)
next
  assume "1 \<le> sint (Build_Failures b) \<and> sint (Build_Failures b) \<le> sint mx"
    and "sint mx \<le> 2 ^ 40"
  then show "sint (spark_index cv mx (Build_Failures b)) =
      1 + \<lfloor>(of_int (sint (Build_Failures b)) / of_int (sint mx) :: rat) * 6\<rfloor>"
    by (intro spark_index_exact(2)) simp_all
qed

theorem render_build_glyph_witness:
  "render_build conv_amd64 6
      \<lparr>Build_Id = 1, Build_Url = ''a/'', Build_Timestamp = Unix 0,
       Build_Failures = 0, Build_Complete = True\<rparr> = Inr (Link ''a/'' ''Passed'' 9601) \<and>
   render_build conv_amd64 6
      \<lparr>Build_Id = 2, Build_Url = ''b/'', Build_Timestamp = Unix 0,
       Build_Failures = - 1, Build_Complete = True\<rparr> = Inr (Link ''b/'' ''Failed'' 9608) \<and>
   render_build conv_amd64 6
      \<lparr>Build_Id = 3, Build_Url = ''c/'', Build_Timestamp = Unix 0,
       Build_Failures = 3, Build_Complete = True\<rparr> = Inr (Link ''c/'' ''3 failures'' 9605) \<and>
   spark_index conv_amd64 6 3 = 4 \<and> spark_index conv_amd64 6 6 = 7 \<and>
   sint (spark_index conv_amd64 6 3) \<le> sint (spark_index conv_amd64 6 6) \<and>
   sint (spark_index conv_amd64 6 3) = 1 + \<lfloor>(3 / 6 :: rat) * 6\<rfloor>"
proof -
  let ?b0 = "\<lparr>Build_Id = 1, Build_Url = ''a/'', Build_Timestamp = Unix 0,
       Build_Failures = 0, Build_Complete = True\<rparr>"
  let ?b1 = "\<lparr>Build_Id = 2, Build_Url = ''b/'', Build_Timestamp = Unix 0,
       Build_Failures = - 1, Build_Complete = True\<rparr>"
  let ?b3 = "\<lparr>Build_Id = 3, Build_Url = ''c/'', Build_Timestamp = Unix 0,
       Build_Failures = 3, Build_Complete = True\<rparr>"
  have c: "Build_Complete ?b0" "Build_Complete ?b1" "Build_Complete ?b3" by simp_all
  have i3: "spark_index conv_amd64 6 3 = 4" by code_simp
  have i6: "spark_index conv_amd64 6 6 = 7" by code_simp
  have d: "decimal 3 = ''3''" by code_simp
  from render_build_glyph [OF c(1), of conv_amd64 6]
  have r0: "render_build conv_amd64 6 ?b0 = Inr (Link ''a/'' ''Passed'' 9601)"
    by (simp add: sparks_def)
  from render_build_glyph [OF c(2), of conv_amd64 6]
  have r1: "render_build conv_amd64 6 ?b1 = Inr (Link ''b/'' ''Failed'' 9608)"
    by (simp add: sparks_def)
  have a: "1 \<le> sint (Build_Failures ?b3) \<and> sint (Build_Failures ?b3) \<le> sint (6 :: int64)"
    by simp
  from render_build_glyph [OF c(3), of conv_amd64 6] a
  have r3: "render_build conv_amd64 6 ?b3 =
              Inr (Link (Build_Url ?b3) (decimal (sint (Build_Failures ?b3)) @ '' failures'')
                     (sparks ! nat (sint (spark_index conv_amd64 6 (Build_Failures ?b3)))))"
    and m: "\<forall>f' :: int64. sint (Build_Failures ?b3) \<le> sint f' \<and> sint f' \<le> sint (6 :: int64) \<longrightarrow>
              sint (spark_index conv_amd64 6 (Build_Failures ?b3)) \<le> sint (spark_index conv_amd64 6 f')"
    and x: "sint (6 :: int64) \<le> 2 ^ 40 \<longrightarrow>
              sint (spark_index conv_amd64 6 (Build_Failures ?b3)) =
                1 + \<lfloor>(of_int (sint (Build_Failures ?b3)) / of_int (sint (6 :: int64)) :: rat) * 6\<rfloor>"
    by blast+
  from x have x': "sint (spark_index conv_amd64 6 3) = 1 + \<lfloor>(3 / 6 :: rat) * 6\<rfloor>"
    by simp
  from r3 have r3': "render_build conv_amd64 6 ?b3 = Inr (Link ''c/'' ''3 failures'' 9605)"
    by (simp add: i3 d sparks_def)
  from m have "sint (spark_index conv_amd64 6 3) \<le> sint (spark_index conv_amd64 6 6)"
    by (simp add: i3 i6)
  with r0 r1 r3' i3 i6 x' show ?thesis by blast
qed

text \<open>
  The bound on \<open>max\<close> matters for the last part only: with counts beyond \<open>2 ^ 53\<close> the
  index computed in \<open>float64\<close> can be greater than the real-valued one, here 2 instead
  of 1 (it is between 1 and 7 all the same).
\<close>

lemma spark_index_beyond_2_53:
  "spark_index conv_amd64 600000000000000001 100000000000000000 = 2 \<and>
   1 + \<lfloor>(of_int (sint (100000000000000000 :: int64))
          / of_int (sint (600000000000000001 :: int64)) :: rat) * 6\<rfloor> = 1"
  by code_simp

lemma sint_ge_1I:
  assumes "- 1 \<le>s (f :: int64)" and "f \<noteq> 0" and "f \<noteq> - 1"
  shows "1 \<le> sint f"
proof -
  have "- 1 \<le> sint f" using assms(1) by (simp add: word_sle_eq)
  moreover have "sint f \<noteq> 0"
  proof
    assume "sint f = 0"
    then have "sint f = sint (0 :: int64)" by simp
    then have "f = 0" by (rule signed_word_eqI)
    with assms(2) show False by simp
  qed
  moreover have "sint f \<noteq> - 1"
  proof
    assume "sint f = - 1"
    then have "sint f = sint (- 1 :: int64)" by simp
    then have "f = - 1" by (rule signed_word_eqI)
    with assms(3) show False by simp
  qed
  ultimately show ?thesis by simp
qed


text \<open>
  \<open>RenderHistory\<close> as a whole returns without a panic whenever no complete build of the
  window has \<open>Failures\<close> below \<open>-1\<close> (and \<open>len(job.Builds) - count\<close> does not overflow).
\<close>

lemma render_loop_ok:
  "length builds < 2 ^ 63 \<Longrightarrow> 0 \<le> sint i \<Longrightarrow>
   (\<forall>k. nat (sint i) \<le> k \<and> k < length builds \<longrightarrow> (\<exists>c. render_build cv mx (builds ! k) = Inr c)) \<Longrightarrow>
   \<exists>cells. render_loop cv builds mx i = Inr cells"
proof (induction cv builds mx i rule: render_loop.induct)
  case (1 cv builds mx i)
  note len = sint_go_len [OF "1.prems"(1)]
  show ?case
  proof (cases "i <s go_len builds")
    case False
    then show ?thesis by (subst render_loop.simps) simp
  next
    case True
    then have lt: "sint i < sint (go_len builds)" by (simp add: word_sless_alt)
    then have k: "nat (sint i) < length builds" using "1.prems"(2) len by simp
    have ix: "go_index builds i = Inr (builds ! nat (sint i))"
      using k "1.prems"(2) by (simp add: go_index_def)
    obtain c where c: "render_build cv mx (builds ! nat (sint i)) = Inr c"
      using "1.prems"(3) k by blast
    have s: "sint (i + 1) = sint i + 1" using lt by (rule sint_succ)
    then have nn: "0 \<le> sint (i + 1)" using "1.prems"(2) by simp
    have "\<forall>k. nat (sint (i + 1)) \<le> k \<and> k < length builds \<longrightarrow>
            (\<exists>c. render_build cv mx (builds ! k) = Inr c)"
      using "1.prems"(3) s "1.prems"(2) by auto
    from "1.IH" [OF True ix c "1.prems"(1) nn this]
    obtain cells where "render_loop cv builds mx (i + 1) = Inr cells" by blast
    then show ?thesis using True by (subst render_loop.simps) (simp add: ix c)
  qed
qed

lemma RenderHistory_no_panic:
  assumes "length (Job_Builds job) < 2 ^ 63"
    and "int (length (Job_Builds job)) - sint count < 2 ^ 63"
    and "\<forall>b \<in> set (window (Job_Builds job) count).
           Build_Complete b \<longrightarrow> - 1 \<le>s Build_Failures b"
  shows "\<exists>cells. RenderHistory cv job count = Inr cells"
proof -
  let ?bs = "Job_Builds job"
  let ?start = "RenderHistory_start ?bs count"
  let ?n = "nat (sint ?start)"
  note sw = RenderHistory_start_window [OF assms(1,2)]
  obtain mx where mx: "RenderHistory_max ?bs count = Inr mx"
    and m: "sint mx = largest_failures (window ?bs count)"
    using RenderHistory_max_largest [OF assms(1,2)] by blast
  have "\<exists>c. render_build cv mx (?bs ! k) = Inr c" if k: "?n \<le> k \<and> k < length ?bs" for k
  proof -
    have "?bs ! k \<in> set (drop ?n ?bs)"
      using k by (auto simp: in_set_conv_nth intro!: exI [of _ "k - ?n"])
    then have w: "?bs ! k \<in> set (window ?bs count)" by (simp only: sw(2))
    show ?thesis
    proof (cases "Build_Complete (?bs ! k) \<and> Build_Failures (?bs ! k) \<noteq> 0
                   \<and> Build_Failures (?bs ! k) \<noteq> - 1")
      case False
      then show ?thesis by (auto simp: render_build_def)
    next
      case True
      with assms(3) w have "- 1 \<le>s Build_Failures (?bs ! k)" by auto
      with True have one: "1 \<le> sint (Build_Failures (?bs ! k))"
        by (intro sint_ge_1I) simp_all
      have "sint (Build_Failures (?bs ! k)) \<in> insert 0 (sint ` Build_Failures ` set (window ?bs count))"
        using w by simp
      then have "sint (Build_Failures (?bs ! k)) \<le> sint mx"
        unfolding m largest_failures_def by (intro Max_ge) simp_all
      with True one show ?thesis by (simp add: render_build_default)
    qed
  qed
  then have "\<exists>cells. render_loop cv ?bs mx ?start = Inr cells"
    using assms(1) sw(1) by (intro render_loop_ok) auto
  then show ?thesis using mx by (auto simp: RenderHistory_unfold)
qed




section \<open>Folder listings\<close>

lemma job_stubs_Exclude:
  "Instance_Exclude i' = Instance_Exclude i \<Longrightarrow> job_stubs cv get i' jobIf = job_stubs cv get i jobIf"
  by (simp add: job_stubs_def split: prod.splits)

lemma ProcessJobObject_jitdash_Exclude:
  "Instance_Exclude i' = Instance_Exclude i \<Longrightarrow>
   ProcessJobObject_jitdash cv get i' jobIf maxBuilds =
   ProcessJobObject_jitdash cv get i jobIf maxBuilds"
  by (simp add: ProcessJobObject_jitdash_def job_stubs_Exclude [of i' i])

lemma jobs_loop_jitdash_Exclude:
  "Instance_Exclude i' = Instance_Exclude i \<Longrightarrow>
   jobs_loop_jitdash cv get i' maxBuilds jobObjects jobs =
   jobs_loop_jitdash cv get i maxBuilds jobObjects jobs"
  by (induction jobObjects arbitrary: jobs)
    (simp_all add: ProcessJobObject_jitdash_Exclude [of i' i] split: sum.splits option.splits)

lemma folders_loop_jitdash_Exclude:
  "Instance_Exclude i' = Instance_Exclude i \<Longrightarrow>
   folders_loop_jitdash cv get i' maxBuilds folders jobs =
   folders_loop_jitdash cv get i maxBuilds folders jobs"
  by (induction folders arbitrary: jobs)
    (simp_all add: jobs_loop_jitdash_Exclude [of i' i] split: response.splits prod.splits sum.splits)

lemma folders_loop_jitdash_append:
  "folders_loop_jitdash cv get i maxBuilds (xs @ ys) jobs =
     (case folders_loop_jitdash cv get i maxBuilds xs jobs of
        Inl p \<Rightarrow> Inl p
      | Inr jobs' \<Rightarrow> folders_loop_jitdash cv get i maxBuilds ys jobs')"
  by (induction xs arbitrary: jobs) (simp_all split: response.splits prod.splits sum.splits)

lemma folders_loop_jitdash_untagged:
  assumes "get folderUrl = Body folder"
    and "GetString folder ''_class'' \<noteq> (''com.cloudbees.hudson.plugins.folder.Folder'', True)"
  shows "folders_loop_jitdash cv get i maxBuilds (folderUrl # folders) jobs =
         folders_loop_jitdash cv get i maxBuilds folders jobs"
  using assms by (cases "GetString folder ''_class''") auto

lemma ProcessJobObject_Exclude:
  "Instance_Exclude i' = Instance_Exclude i \<Longrightarrow>
   ProcessJobObject cv get i' jobIf = ProcessJobObject cv get i jobIf"
  by (simp add: ProcessJobObject_def job_stubs_Exclude [of i' i])

lemma jobs_loop_Exclude:
  "Instance_Exclude i' = Instance_Exclude i \<Longrightarrow>
   jobs_loop cv get i' jobObjects jobs = jobs_loop cv get i jobObjects jobs"
  by (induction jobObjects arbitrary: jobs)
    (simp_all add: ProcessJobObject_Exclude [of i' i] split: option.splits)

lemma folders_loop_Exclude:
  "Instance_Exclude i' = Instance_Exclude i \<Longrightarrow>
   folders_loop cv get i' folders jobs = folders_loop cv get i folders jobs"
  by (induction folders arbitrary: jobs)
    (simp_all add: jobs_loop_Exclude [of i' i] split: response.splits prod.splits)

lemma folders_loop_append:
  "folders_loop cv get i (xs @ ys) jobs =
     folders_loop cv get i ys (folders_loop cv get i xs jobs)"
  by (induction xs arbitrary: jobs) (simp_all split: response.splits prod.splits)

lemma folders_loop_no_jobs:
  assumes "get folderUrl = Body folder" and "\<not> snd (GetArray folder ''jobs'')"
  shows "folders_loop cv get i (folderUrl # folders) jobs = folders_loop cv get i folders jobs"
  using assms by (cases "GetArray folder ''jobs''") auto

text \<open>
  C3, as amended. In \<^verbatim>\<open>jitdash.go\<close>, \<open>FetchJobs\<close> skips a folder whose decoded object is
  not tagged \<open>com.cloudbees.hudson.plugins.folder.Folder\<close> (tag absent, not a string, or
  another value): the result, jobs and panics alike, is that of the instance without this
  folder. The other snapshot does not read the tag; there \<open>FetchJobs\<close> skips a decoded
  folder when it has no \<open>jobs\<close> array.
\<close>

theorem FetchJobs_jitdash_skips_untagged_folder:
  assumes "Instance_Folders i = before @ folderUrl # after"
    and "get folderUrl = Body folder"
    and "GetString folder ''_class'' \<noteq> (''com.cloudbees.hudson.plugins.folder.Folder'', True)"
  shows "FetchJobs_jitdash cv get i maxBuilds =
           FetchJobs_jitdash cv get (i\<lparr>Instance_Folders := before @ after\<rparr>) maxBuilds \<and>
         (\<not> snd (GetArray folder ''jobs'') \<longrightarrow>
            FetchJobs cv get i = FetchJobs cv get (i\<lparr>Instance_Folders := before @ after\<rparr>))"
proof
  let ?i = "i\<lparr>Instance_Folders := before @ after\<rparr>"
  have ex: "Instance_Exclude ?i = Instance_Exclude i" by simp
  have "FetchJobs_jitdash cv get i maxBuilds =
          (case folders_loop_jitdash cv get i maxBuilds before [] of
             Inl p \<Rightarrow> Inl p
           | Inr jobs' \<Rightarrow> folders_loop_jitdash cv get i maxBuilds (folderUrl # after) jobs')"
    by (simp add: FetchJobs_jitdash_def assms(1) folders_loop_jitdash_append)
  also have "\<dots> =
          (case folders_loop_jitdash cv get i maxBuilds before [] of
             Inl p \<Rightarrow> Inl p
           | Inr jobs' \<Rightarrow> folders_loop_jitdash cv get i maxBuilds after jobs')"
    by (simp only: folders_loop_jitdash_untagged [where get = get and folderUrl = folderUrl, OF assms(2,3)])
  also have "\<dots> = folders_loop_jitdash cv get i maxBuilds (before @ after) []"
    by (simp only: folders_loop_jitdash_append)
  also have "\<dots> = FetchJobs_jitdash cv get ?i maxBuilds"
    by (simp add: FetchJobs_jitdash_def folders_loop_jitdash_Exclude [OF ex])
  finally show "FetchJobs_jitdash cv get i maxBuilds = FetchJobs_jitdash cv get ?i maxBuilds" .
  show "\<not> snd (GetArray folder ''jobs'') \<longrightarrow> FetchJobs cv get i = FetchJobs cv get ?i"
  proof
    assume nj: "\<not> snd (GetArray folder ''jobs'')"
    have "FetchJobs cv get i =
            folders_loop cv get i (folderUrl # after) (folders_loop cv get i before [])"
      by (simp add: FetchJobs_def assms(1) folders_loop_append)
    also have "\<dots> = folders_loop cv get i after (folders_loop cv get i before [])"
      by (rule folders_loop_no_jobs [where get = get and folderUrl = folderUrl, OF assms(2) nj])
    also have "\<dots> = folders_loop cv get i (before @ after) []"
      by (simp only: folders_loop_append)
    also have "\<dots> = FetchJobs cv get ?i"
      by (simp add: FetchJobs_def folders_loop_Exclude [OF ex])
    finally show "FetchJobs cv get i = FetchJobs cv get ?i" .
  qed
qed

theorem FetchJobs_jitdash_skips_untagged_folder_witness:
  "GetString [(''_class'', JString ''hudson.model.ListView''),
              (''jobs'', JArray [JObject [(''_class'', JString ''hudson.model.FreeStyleProject''),
                                         (''name'', JString ''j''), (''url'', JString ''j/'')]])]
     ''_class'' \<noteq> (''com.cloudbees.hudson.plugins.folder.Folder'', True) \<and>
   FetchJobs_jitdash conv_amd64 example_server
     \<lparr>Instance_Name = ''ci'', Instance_Folders = [''f/api/json''], Instance_Exclude = []\<rparr> 10
     = Inr [] \<and>
   \<not> snd (GetArray [(''_class'', JString ''hudson.model.ListView'')] ''jobs'') \<and>
   FetchJobs conv_amd64 example_server
     \<lparr>Instance_Name = ''ci'', Instance_Folders = [''g/api/json''], Instance_Exclude = []\<rparr>
     = []"
proof -
  let ?f = "[(''_class'', JString ''hudson.model.ListView''),
              (''jobs'', JArray [JObject [(''_class'', JString ''hudson.model.FreeStyleProject''),
                                         (''name'', JString ''j''), (''url'', JString ''j/'')]])]"
  let ?g = "[(''_class'', JString ''hudson.model.ListView'')]"
  let ?i = "\<lparr>Instance_Name = ''ci'', Instance_Folders = [''f/api/json''], Instance_Exclude = []\<rparr>"
  let ?i' = "\<lparr>Instance_Name = ''ci'', Instance_Folders = [''g/api/json''], Instance_Exclude = []\<rparr>"
  have a1: "Instance_Folders ?i = [] @ ''f/api/json'' # []" by simp
  have a2: "example_server ''f/api/json'' = Body ?f" by (simp add: example_server_def)
  have a3: "GetString ?f ''_class'' \<noteq> (''com.cloudbees.hudson.plugins.folder.Folder'', True)"
    by (simp add: GetString_def)
  have b1: "Instance_Folders ?i' = [] @ ''g/api/json'' # []" by simp
  have b2: "example_server ''g/api/json'' = Body ?g" by (simp add: example_server_def)
  have b3: "GetString ?g ''_class'' \<noteq> (''com.cloudbees.hudson.plugins.folder.Folder'', True)"
    by (simp add: GetString_def)
  have b4: "\<not> snd (GetArray ?g ''jobs'')" by (simp add: GetArray_def)
  from FetchJobs_jitdash_skips_untagged_folder
    [where get = example_server and folderUrl = "''f/api/json''" and before = "[]"
       and after = "[]" and cv = conv_amd64 and maxBuilds = 10, OF a1 a2 a3]
  have "FetchJobs_jitdash conv_amd64 example_server ?i 10 = Inr []"
    by (simp add: FetchJobs_jitdash_def)
  moreover from FetchJobs_jitdash_skips_untagged_folder
    [where get = example_server and folderUrl = "''g/api/json''" and before = "[]"
       and after = "[]" and cv = conv_amd64 and maxBuilds = 10, OF b1 b2 b3] b4
  have "FetchJobs conv_amd64 example_server ?i' = []"
    by (simp add: FetchJobs_def)
  ultimately show ?thesis using a3 b4 by blast
qed

text \<open>
  C3 as stated fails for the \<open>FetchJobs\<close> of the other snapshot: a listing tagged
  \<open>hudson.model.ListView\<close> contributes its job there, while \<^verbatim>\<open>jitdash.go\<close> skips it.
\<close>

theorem FetchJobs_reads_untagged_folder:
  "example_server ''f/api/json'' =
     Body [(''_class'', JString ''hudson.model.ListView''),
           (''jobs'', JArray [JObject [(''_class'', JString ''hudson.model.FreeStyleProject''),
                                      (''name'', JString ''j''), (''url'', JString ''j/'')]])] \<and>
   GetString [(''_class'', JString ''hudson.model.ListView''),
              (''jobs'', JArray [JObject [(''_class'', JString ''hudson.model.FreeStyleProject''),
                                         (''name'', JString ''j''), (''url'', JString ''j/'')]])]
     ''_class'' \<noteq> (''com.cloudbees.hudson.plugins.folder.Folder'', True) \<and>
   FetchJobs conv_amd64 example_server
     \<lparr>Instance_Name = ''ci'', Instance_Folders = [''f/api/json''], Instance_Exclude = []\<rparr>
     = [\<lparr>Job_Name = ''j'', Job_Url = ''j/'', Job_Builds = []\<rparr>] \<and>
   FetchJobs_jitdash conv_amd64 example_server
     \<lparr>Instance_Name = ''ci'', Instance_Folders = [''f/api/json''], Instance_Exclude = []\<rparr> 10
     = Inr []"
  by (simp add: FetchJobs_def FetchJobs_jitdash_def example_server_def GetString_def GetArray_def
      ProcessJobObject_def job_stubs_def AsJsonObject_def)

end
